theory Spec2Isabelle
  imports Main "HOL-Library.Word"
begin

unbundle bit_operations_syntax

section \<open>Machine integers, device constants, environment\<close>

text \<open>
  The utility is compiled for the eZ80: \<open>UINT24\<close> is the native 24-bit unsigned integer and
  also the width of an address, \<open>UINT32\<close> holds a CRC, \<open>UINT8\<close> a byte or an 8-bit register.
  Arithmetic on them wraps around, as arithmetic on words does.
\<close>

type_synonym UINT8 = "8 word"
type_synonym UINT24 = "24 word"
type_synonym UINT32 = "32 word"

text \<open>
  The constants of \<open>flash.h\<close>. The header is not among the sources, so its constants are
  parameters of the model; main.c only says that the flash is 128KB large.
\<close>

record config =
  FLASHSTART :: UINT24
  FLASHSIZE :: UINT24
  FLASHPAGES :: UINT24
  PAGESIZE :: UINT24
  BUFFER1 :: UINT24
  BUFFER2 :: UINT24
  BLOCKSIZE :: UINT24

datatype states = firmware | recover | systemreset

datatype arg = Num nat | Str string

datatype reg = FLASH_PROT | FLASH_FDIV | FLASH_PAGE | FLASH_PGCTL

text \<open>
  Everything main.c does to the outside world, in the order it does it. \<open>Printf\<close> carries
  the visible text of the format string (control characters left out) and its arguments.
\<close>

datatype event =
    Printf string "arg list"
  | Putch UINT8
  | Fopen string
  | Fread UINT24 nat
  | Fclose
  | Getch UINT8
  | Crc32 UINT24 UINT24
  | Fastmemcpy UINT24 UINT24 UINT24
  | Di
  | EnableFlashKeyRegister
  | LockFlashKeyRegister
  | RegWrite reg UINT8
  | Delayms nat
  | Reset

text \<open>
  The collaborators of main.c that are not in main.c: the storage, the parser of the
  checksum argument (it returns the value and leaves \<open>errno\<close>), the checksum function (pure,
  over a byte sequence), and the hardware: what programming a flash cell holding \<open>old\<close> with
  the byte \<open>d\<close> leaves in the cell, and what the \<open>n\<close>-th read of a status register returns.
\<close>

record env =
  files :: "string \<Rightarrow> UINT8 list option"
  strtoll :: "string \<Rightarrow> UINT32 \<times> int"
  crc32 :: "UINT8 list \<Rightarrow> UINT32"
  program :: "UINT24 \<Rightarrow> UINT8 \<Rightarrow> UINT8 \<Rightarrow> UINT8"
  pgctl :: "nat \<Rightarrow> UINT8"
  uart_lsr :: "nat \<Rightarrow> UINT8"

text \<open>
  The machine: the 24-bit address space (the flash is mapped at \<open>FLASHSTART\<close>), the flash
  controller's key latch, protection and page-select registers, the number of status reads
  made so far, the bytes the keyboard will still deliver, the unread rest of the open file,
  and the events so far (oldest first).
\<close>

record machine =
  mem :: "UINT24 \<Rightarrow> UINT8"
  flash_key :: bool
  flash_prot :: UINT8
  flash_page :: UINT8
  clock :: nat
  keys :: "UINT8 list"
  file_rest :: "UINT8 list"
  trace :: "event list"

text \<open>The local variables of \<open>main\<close> that live across the programming loop.\<close>

record vars =
  crcexpected :: UINT32
  crcbackup :: UINT32
  size_v :: UINT24
  addressto :: UINT24
  addressfrom :: UINT24

text \<open>
  How a run of \<open>main\<close> ends: \<open>return 0\<close>; the call of \<open>reset()\<close>, which restarts the device
  and does not return; the empty \<open>while(1)\<close> after a failed recovery. A run that stays in a
  wait loop for ever (no key comes, a status bit never changes) has no outcome: \<open>None\<close>.
\<close>

datatype outcome = Returned | SystemReset | Halted

datatype loop_result = Continue states vars machine | Stop outcome machine

section \<open>Primitive operations\<close>

definition emit :: "event \<Rightarrow> machine \<Rightarrow> machine" where
  "emit e m = m\<lparr>trace := trace m @ [e]\<rparr>"

definition printf :: "string \<Rightarrow> arg list \<Rightarrow> machine \<Rightarrow> machine" where
  "printf fmt args m = emit (Printf fmt args) m"

definition in_flash :: "config \<Rightarrow> UINT24 \<Rightarrow> bool" where
  "in_flash cfg a \<longleftrightarrow> a - FLASHSTART cfg < FLASHSIZE cfg"

text \<open>
  Modelled from the spec: the flash device (section 3, FlashRegion, and section 4.4). A
  store into RAM replaces the byte. A store into the flash window programs the cell when
  the protection register is 0 and is ignored otherwise; an erased cell holds \<open>0xFF\<close>.
\<close>

definition ERASED :: UINT8 where
  "ERASED = 0xFF"

definition poke :: "config \<Rightarrow> env \<Rightarrow> UINT24 \<Rightarrow> UINT8 \<Rightarrow> machine \<Rightarrow> machine" where
  "poke cfg env a v m =
     (if in_flash cfg a
      then (if flash_prot m = 0 then m\<lparr>mem := (mem m)(a := program env a (mem m a) v)\<rparr> else m)
      else m\<lparr>mem := (mem m)(a := v)\<rparr>)"

definition peek :: "machine \<Rightarrow> UINT24 \<Rightarrow> nat \<Rightarrow> UINT8 list" where
  "peek m a n = map (\<lambda>i. mem m (a + of_nat i)) [0..<n]"

text \<open>
  Modelled from the spec: the bulk copy primitive \<open>fastmemcpy(dst, src, len)\<close> (section 6,
  device boundary), copying byte by byte in ascending order.
\<close>

primrec copy_bytes :: "config \<Rightarrow> env \<Rightarrow> UINT24 \<Rightarrow> UINT24 \<Rightarrow> nat \<Rightarrow> machine \<Rightarrow> machine" where
  "copy_bytes cfg env dst src 0 m = m"
| "copy_bytes cfg env dst src (Suc n) m =
     copy_bytes cfg env (dst + 1) (src + 1) n (poke cfg env dst (mem m src) m)"

definition fastmemcpy :: "config \<Rightarrow> env \<Rightarrow> UINT24 \<Rightarrow> UINT24 \<Rightarrow> UINT24 \<Rightarrow> machine \<Rightarrow> machine" where
  "fastmemcpy cfg env dst src len m =
     copy_bytes cfg env dst src (unat len) (emit (Fastmemcpy dst src len) m)"

text \<open>\<open>crc32(ptr, len)\<close>: the checksum of the \<open>len\<close> bytes that memory holds at \<open>ptr\<close> now.\<close>

definition crc32_call :: "env \<Rightarrow> UINT24 \<Rightarrow> UINT24 \<Rightarrow> machine \<Rightarrow> UINT32 \<times> machine" where
  "crc32_call env ptr len m = (crc32 env (peek m ptr (unat len)), emit (Crc32 ptr len) m)"

text \<open>
  \<open>mos_fopen\<close> returns a handle, 0 when the file cannot be opened; \<open>mos_fread\<close> stores up to
  \<open>n\<close> bytes of the file at \<open>ptr\<close> and returns how many it stored; \<open>getch\<close> waits for a
  key, so it does not return when no key comes any more.
\<close>

definition mos_fopen :: "env \<Rightarrow> string \<Rightarrow> machine \<Rightarrow> UINT8 \<times> machine" where
  "mos_fopen env name m =
     (case files env name of
        None \<Rightarrow> (0, emit (Fopen name) m)
      | Some bs \<Rightarrow> (1, emit (Fopen name) (m\<lparr>file_rest := bs\<rparr>)))"

primrec store_bytes :: "config \<Rightarrow> env \<Rightarrow> UINT24 \<Rightarrow> UINT8 list \<Rightarrow> machine \<Rightarrow> machine" where
  "store_bytes cfg env a [] m = m"
| "store_bytes cfg env a (b # bs) m = store_bytes cfg env (a + 1) bs (poke cfg env a b m)"

definition mos_fread :: "config \<Rightarrow> env \<Rightarrow> UINT24 \<Rightarrow> UINT24 \<Rightarrow> machine \<Rightarrow> UINT24 \<times> machine" where
  "mos_fread cfg env ptr n m =
     (let chunk = take (unat n) (file_rest m);
          m1 = store_bytes cfg env ptr chunk m
      in (of_nat (length chunk), emit (Fread ptr (length chunk)) (m1\<lparr>file_rest := drop (unat n) (file_rest m)\<rparr>)))"

definition mos_fclose :: "machine \<Rightarrow> machine" where
  "mos_fclose m = emit Fclose (m\<lparr>file_rest := []\<rparr>)"

definition getch :: "machine \<Rightarrow> (UINT8 \<times> machine) option" where
  "getch m =
     (case keys m of
        [] \<Rightarrow> None
      | k # ks \<Rightarrow> Some (k, emit (Getch k) (m\<lparr>keys := ks\<rparr>)))"

section \<open>The confirmation prompt\<close>

text \<open>
  \<^verbatim>\<open>response = 0; while((response != 'y') && (response != 'n')) response = getch();\<close>
  with \<open>'y' = 0x79\<close> and \<open>'n' = 0x6E\<close>. \<open>None\<close>: the loop is still waiting for a key.
\<close>

function confirm :: "UINT8 \<Rightarrow> machine \<Rightarrow> (UINT8 \<times> machine) option" where
  "confirm response m =
     (if response \<noteq> 0x79 \<and> response \<noteq> 0x6E
      then (case getch m of None \<Rightarrow> None | Some (r, m') \<Rightarrow> confirm r m')
      else Some (response, m))"
  by pat_completeness auto
termination
  by (relation "measure (\<lambda>(response, m). length (keys m))")
     (auto simp: getch_def emit_def split: list.splits)

declare confirm.simps [simp del]

section \<open>Loading the candidate image\<close>

text \<open>
  \<^verbatim>\<open>while((got = mos_fread(file, ptr, BLOCKSIZE)) > 0) { ptr += got; size += got; printf(...); }\<close>
\<close>

function load :: "config \<Rightarrow> env \<Rightarrow> UINT24 \<Rightarrow> UINT24 \<Rightarrow> machine \<Rightarrow> UINT24 \<times> UINT24 \<times> machine" where
  "load cfg env ptr sz m =
     (case mos_fread cfg env ptr (BLOCKSIZE cfg) m of
        (got, m1) \<Rightarrow>
          if got > 0
          then load cfg env (ptr + got) (sz + got)
                 (printf ''File size    : %d byte(s)'' [Num (unat (sz + got))] m1)
          else (ptr, sz, m1))"
  by pat_completeness auto
termination
proof (relation "measure (\<lambda>(cfg, env, ptr, sz, m). length (file_rest m))", goal_cases)
  case 1
  show ?case by simp
next
  case (2 cfg env ptr sz m got m1)
  then have got: "got = of_nat (length (take (unat (BLOCKSIZE cfg)) (file_rest m)))"
    and m1: "file_rest m1 = drop (unat (BLOCKSIZE cfg)) (file_rest m)"
    by (auto simp: mos_fread_def Let_def emit_def)
  have "length (take (unat (BLOCKSIZE cfg)) (file_rest m)) \<noteq> 0"
  proof
    assume "length (take (unat (BLOCKSIZE cfg)) (file_rest m)) = 0"
    with got \<open>0 < got\<close> show False by simp
  qed
  then have "0 < unat (BLOCKSIZE cfg)" "file_rest m \<noteq> []"
    by auto
  with m1 show ?case
    by (simp add: printf_def emit_def)
qed

declare load.simps [simp del]

section \<open>The flash controller\<close>

text \<open>
  Modelled from the spec: the registers of the flash controller (sections 4.3, 4.4 and 6).
  \<open>enableFlashKeyRegister\<close> opens the key latch; a write to the protection or to the
  divisor register takes effect only with the latch open and closes it (the unlock is
  single-use); setting the erase bit of the page-control register erases the selected page
  of \<open>PAGESIZE\<close> bytes when the protection register is 0.
\<close>

definition enableFlashKeyRegister :: "machine \<Rightarrow> machine" where
  "enableFlashKeyRegister m = emit EnableFlashKeyRegister (m\<lparr>flash_key := True\<rparr>)"

definition lockFlashKeyRegister :: "machine \<Rightarrow> machine" where
  "lockFlashKeyRegister m = emit LockFlashKeyRegister (m\<lparr>flash_key := False\<rparr>)"

definition erase_page :: "config \<Rightarrow> UINT8 \<Rightarrow> (UINT24 \<Rightarrow> UINT8) \<Rightarrow> UINT24 \<Rightarrow> UINT8" where
  "erase_page cfg page f =
     (\<lambda>a. if a - (FLASHSTART cfg + ucast page * PAGESIZE cfg) < PAGESIZE cfg then ERASED else f a)"

definition reg_write :: "config \<Rightarrow> reg \<Rightarrow> UINT8 \<Rightarrow> machine \<Rightarrow> machine" where
  "reg_write cfg r v m =
     (case r of
        FLASH_PROT \<Rightarrow>
          (if flash_key m then emit (RegWrite r v) (m\<lparr>flash_prot := v, flash_key := False\<rparr>)
           else emit (RegWrite r v) m)
      | FLASH_FDIV \<Rightarrow>
          (if flash_key m then emit (RegWrite r v) (m\<lparr>flash_key := False\<rparr>)
           else emit (RegWrite r v) m)
      | FLASH_PAGE \<Rightarrow> emit (RegWrite r v) (m\<lparr>flash_page := v\<rparr>)
      | FLASH_PGCTL \<Rightarrow>
          (if v AND 0x02 \<noteq> 0 \<and> flash_prot m = 0
           then emit (RegWrite r v) (m\<lparr>mem := erase_page cfg (flash_page m) (mem m)\<rparr>)
           else emit (RegWrite r v) m))"

text \<open>
  \<^verbatim>\<open>do { value = FLASH_PGCTL; } while(value & 0x02);\<close>
  The loop has no timeout: it ends at the first read with the bit clear, if there is one.
\<close>

partial_function (option) wait_erase :: "env \<Rightarrow> machine \<Rightarrow> machine option" where
  "wait_erase env m =
     (if pgctl env (clock m) AND 0x02 \<noteq> 0
      then wait_erase env (m\<lparr>clock := Suc (clock m)\<rparr>)
      else Some (m\<lparr>clock := Suc (clock m)\<rparr>))"

declare wait_erase.simps [code]

text \<open>
  \<^verbatim>\<open>while((UART0_LSR & 0x40) == 0); UART0_THR = c; return c;\<close>
\<close>

partial_function (option) uart_wait :: "env \<Rightarrow> machine \<Rightarrow> machine option" where
  "uart_wait env m =
     (if uart_lsr env (clock m) AND 0x40 = 0
      then uart_wait env (m\<lparr>clock := Suc (clock m)\<rparr>)
      else Some (m\<lparr>clock := Suc (clock m)\<rparr>))"

declare uart_wait.simps [code]

definition putch :: "env \<Rightarrow> UINT8 \<Rightarrow> machine \<Rightarrow> machine option" where
  "putch env c m = map_option (emit (Putch c)) (uart_wait env m)"

definition delayms :: "nat \<Rightarrow> machine \<Rightarrow> machine" where
  "delayms n m = emit (Delayms n) m"

definition di :: "machine \<Rightarrow> machine" where
  "di m = emit Di m"

section \<open>One pass: erase, write, verify\<close>

text \<open>Lines 147 to 151: unprotect the flash and set the erase timing.\<close>

definition unprotect :: "config \<Rightarrow> machine \<Rightarrow> machine" where
  "unprotect cfg m =
     reg_write cfg FLASH_FDIV 0x5F
       (enableFlashKeyRegister
         (reg_write cfg FLASH_PROT 0
           (enableFlashKeyRegister
             (printf ''Erasing flash... '' [] m))))"

text \<open>
  \<^verbatim>\<open>for(counter = 0; counter < FLASHPAGES; counter++) { FLASH_PAGE = counter; FLASH_PGCTL = 0x02; do ... }\<close>
  \<open>FLASH_PAGE\<close> is an 8-bit register: the assignment keeps the low byte of \<open>counter\<close>.
\<close>

function erase_pages :: "config \<Rightarrow> env \<Rightarrow> UINT24 \<Rightarrow> machine \<Rightarrow> machine option" where
  "erase_pages cfg env counter m =
     (if counter < FLASHPAGES cfg
      then (case wait_erase env
                   (reg_write cfg FLASH_PGCTL 0x02 (reg_write cfg FLASH_PAGE (ucast counter) m)) of
              None \<Rightarrow> None
            | Some m' \<Rightarrow> erase_pages cfg env (counter + 1) m')
      else Some m)"
  by pat_completeness auto
termination
proof (relation "measure (\<lambda>(cfg, env, counter, m). unat (FLASHPAGES cfg) - unat counter)", goal_cases)
  case 1
  show ?case by simp
next
  case (2 cfg env counter m m')
  then show ?case by simp unat_arith
qed

declare erase_pages.simps [simp del]

text \<open>Lines 168 to 174: the number of pages to write and the length of the last page.\<close>

definition page_plan :: "config \<Rightarrow> UINT24 \<Rightarrow> UINT24 \<times> UINT24" where
  "page_plan cfg sz =
     (if sz mod PAGESIZE cfg \<noteq> 0
      then (sz div PAGESIZE cfg + 1, sz mod PAGESIZE cfg)
      else (sz div PAGESIZE cfg, PAGESIZE cfg))"

text \<open>Lines 177 to 190: the page-write loop.\<close>

function write_pages ::
  "config \<Rightarrow> env \<Rightarrow> UINT24 \<Rightarrow> UINT24 \<Rightarrow> UINT24 \<Rightarrow> UINT24 \<Rightarrow> UINT24 \<Rightarrow> machine
     \<Rightarrow> UINT24 \<times> UINT24 \<times> machine" where
  "write_pages cfg env pagemax lastpagebytes counter ato afrom m =
     (if counter < pagemax
      then write_pages cfg env pagemax lastpagebytes (counter + 1)
             (ato + PAGESIZE cfg) (afrom + PAGESIZE cfg)
             (if counter = pagemax - 1
              then fastmemcpy cfg env ato afrom lastpagebytes
                     (printf ''Writing flash page %03d/%03d''
                        [Num (unat (counter + 1)), Num (unat pagemax)] m)
              else fastmemcpy cfg env ato afrom (PAGESIZE cfg)
                     (printf ''Writing flash page %03d/%03d''
                        [Num (unat (counter + 1)), Num (unat pagemax)] m))
      else (ato, afrom, m))"
  by pat_completeness auto
termination
proof (relation "measure (\<lambda>(cfg, env, pagemax, lastpagebytes, counter, ato, afrom, m).
                            unat pagemax - unat counter)", goal_cases)
  case 1
  show ?case by simp
next
  case (2 cfg env pagemax lastpagebytes counter ato afrom m)
  then show ?case by simp unat_arith
qed

declare write_pages.simps [simp del]

text \<open>
  Lines 191 to 219: lock the key register, recompute the checksum of the flash, compare it
  with the expected checksum of the image of this state, choose the next state. In the
  state \<open>recover\<close> a mismatch ends in the empty \<open>while(1)\<close>.
\<close>

definition verify :: "config \<Rightarrow> env \<Rightarrow> states \<Rightarrow> vars \<Rightarrow> machine \<Rightarrow> loop_result" where
  "verify cfg env state v m =
     (case crc32_call env (FLASHSTART cfg) (size_v v)
             (printf ''Verifying flash checksum... '' []
               (printf [] [] (lockFlashKeyRegister m))) of
        (crcresult, m1) \<Rightarrow>
          (let v' = v\<lparr>crcexpected := (if state = recover then crcbackup v else crcexpected v)\<rparr>
           in if crcresult = crcexpected v'
              then Continue systemreset v' (printf ''- OK'' [] m1)
              else (case state of
                      firmware \<Rightarrow>
                        Continue recover v'
                          (printf ''Error occured during flash write / Attempting to flash backup firmware...'' [] m1)
                    | recover \<Rightarrow>
                        Stop Halted
                          (printf ''Error occured during flash write / Backup recovery failed'' [] m1)
                    | systemreset \<Rightarrow> Continue recover v' m1)))"

text \<open>
  Lines 146 to 219 for a state that writes: erase every page, write the pages of the
  image, verify.
\<close>

definition pass :: "config \<Rightarrow> env \<Rightarrow> states \<Rightarrow> vars \<Rightarrow> machine \<Rightarrow> loop_result option" where
  "pass cfg env state v m =
     (case erase_pages cfg env 0 (unprotect cfg m) of
        None \<Rightarrow> None
      | Some m1 \<Rightarrow>
          (case page_plan cfg (size_v v) of
             (pagemax, lastpagebytes) \<Rightarrow>
               (case write_pages cfg env pagemax lastpagebytes 0 (addressto v) (addressfrom v)
                       (printf ''Writing new firmware...'' [] m1) of
                  (ato, afrom, m2) \<Rightarrow>
                    Some (verify cfg env state (v\<lparr>addressto := ato, addressfrom := afrom\<rparr>) m2))))"

text \<open>
  The \<open>default\<close> branch of the first switch: the countdown, a form feed, the reset.
\<close>

function countdown :: "UINT24 \<Rightarrow> machine \<Rightarrow> machine" where
  "countdown counter m =
     (if counter > 0
      then countdown (counter - 1) (delayms 1000 (printf ''Reset in %ds'' [Num (unat counter)] m))
      else m)"
  by pat_completeness auto
termination
proof (relation "measure (\<lambda>(counter, m). unat counter)", goal_cases)
  case 1
  show ?case by simp
next
  case (2 counter m)
  then show ?case by simp unat_arith
qed

declare countdown.simps [simp del]

definition reset_sequence :: "env \<Rightarrow> machine \<Rightarrow> machine option" where
  "reset_sequence env m =
     (case putch env 12 (countdown 5 (printf [] [] m)) of
        None \<Rightarrow> None
      | Some m1 \<Rightarrow> Some (emit Reset (delayms 500 m1)))"

section \<open>The programming state machine\<close>

text \<open>
  One turn of the \<open>while(1)\<close> loop of lines 120 to 220: the first switch selects the source
  image (and, for the backup, the full length), or resets the system.
\<close>

definition step :: "config \<Rightarrow> env \<Rightarrow> states \<Rightarrow> vars \<Rightarrow> machine \<Rightarrow> loop_result option" where
  "step cfg env state v m =
     (case state of
        firmware \<Rightarrow> pass cfg env state (v\<lparr>addressfrom := BUFFER1 cfg\<rparr>) m
      | recover \<Rightarrow> pass cfg env state (v\<lparr>addressfrom := BUFFER2 cfg, size_v := FLASHSIZE cfg\<rparr>) m
      | systemreset \<Rightarrow> map_option (Stop SystemReset) (reset_sequence env m))"

fun rank :: "states \<Rightarrow> nat" where
  "rank firmware = 2"
| "rank recover = 1"
| "rank systemreset = 0"

function run :: "config \<Rightarrow> env \<Rightarrow> states \<Rightarrow> vars \<Rightarrow> machine \<Rightarrow> (outcome \<times> machine) option" where
  "run cfg env state v m =
     (case step cfg env state v m of
        None \<Rightarrow> None
      | Some (Stop oc m') \<Rightarrow> Some (oc, m')
      | Some (Continue state' v' m') \<Rightarrow> run cfg env state' v' m')"
  by pat_completeness auto
termination
proof (relation "measure (\<lambda>(cfg, env, state, v, m). rank state)", goal_cases)
  case 1
  show ?case by simp
next
  case (2 cfg env state v m r state' v' m')
  then have "step cfg env state v m = Some (Continue state' v' m')"
    by simp
  then have "rank state' < rank state"
    by (cases state)
       (auto simp: step_def pass_def verify_def Let_def split: option.splits prod.splits if_splits)
  then show ?case by simp
qed

declare run.simps [simp del]

section \<open>main\<close>

text \<open>
  Lines 109 to 111: copy the flash contents (the \<open>FLASHSIZE\<close> bytes at address 0) into the
  second buffer and compute their checksum.
\<close>

definition capture_backup :: "config \<Rightarrow> env \<Rightarrow> machine \<Rightarrow> UINT32 \<times> machine" where
  "capture_backup cfg env m =
     crc32_call env 0 (FLASHSIZE cfg)
       (fastmemcpy cfg env (BUFFER2 cfg) 0 (FLASHSIZE cfg)
         (printf ''Backing up existing firmware... '' [] m))"

text \<open>Lines 109 to 119: capture the backup, disable the interrupts, start in \<open>firmware\<close>.\<close>

definition programming ::
  "config \<Rightarrow> env \<Rightarrow> UINT32 \<Rightarrow> UINT24 \<Rightarrow> machine \<Rightarrow> (outcome \<times> machine) option" where
  "programming cfg env crcexp sz m =
     (case capture_backup cfg env m of
        (crcb, m1) \<Rightarrow>
          run cfg env firmware
            \<lparr>crcexpected = crcexp, crcbackup = crcb, size_v = sz,
             addressto = FLASHSTART cfg, addressfrom = BUFFER1 cfg\<rparr>
            (di m1))"

text \<open>Lines 92 to 107 and 222: the verification gate and the prompt.\<close>

definition gate :: "config \<Rightarrow> env \<Rightarrow> UINT32 \<Rightarrow> UINT24 \<Rightarrow> machine \<Rightarrow> (outcome \<times> machine) option" where
  "gate cfg env crcexp sz m =
     (case crc32_call env (BUFFER1 cfg) sz
             (printf ''Testing CRC32: 0x%08lx'' [Num (unat crcexp)] m) of
        (crcresult, m1) \<Rightarrow>
          (let m2 = printf ''CRC32 result : 0x%08lx'' [Num (unat crcresult)] m1
           in if crcexp \<noteq> crcresult
              then Some (Returned, printf ''Mismatch - aborting'' [] m2)
              else (case confirm 0
                           (printf ''Erase and program flash (y/n)? '' [] (printf ''OK'' [] m2)) of
                      None \<Rightarrow> None
                    | Some (response, m3) \<Rightarrow>
                        if response = 0x79
                        then programming cfg env crcexp sz m3
                        else Some (Returned, printf ''User abort'' [] m3))))"

text \<open>
  Lines 50 to 90: the arguments, the file, the checksum argument, the load, the size. Each
  \<open>return 0\<close> is an \<open>Inl\<close>; \<open>Inr\<close> carries the expected checksum and the size of the staged
  image on to the gate.
\<close>

definition staging ::
  "config \<Rightarrow> env \<Rightarrow> string list \<Rightarrow> machine \<Rightarrow> (outcome \<times> machine) + (UINT32 \<times> UINT24 \<times> machine)" where
  "staging cfg env argv m0 =
     (let m1 = printf ''Agon MOS firmware upgrade utility v1.3'' [] m0
      in if length argv \<noteq> 3
         then Inl (Returned,
                printf ''       <crc32> - 4byte HEX CRC32 checksum'' []
                  (printf ''       <filename> - e.g. firmware.bin'' []
                    (printf ''Usage: FLASH <filename> <crc32>'' [] m1)))
         else (case mos_fopen env (argv ! 1) m1 of
                 (fh, m2) \<Rightarrow>
                   if fh = 0
                   then Inl (Returned, printf ''Error opening \"%s\"'' [Str (argv ! 1)] m2)
                   else (case strtoll env (argv ! 2) of
                           (crcexp, errno) \<Rightarrow>
                             if errno \<noteq> 0
                             then Inl (Returned, printf ''Incorrect crc32 format'' [] m2)
                             else (case load cfg env (BUFFER1 cfg) 0
                                          (printf ''File size    : %d byte(s)'' [Num 0]
                                            (printf ''Loading file : %s'' [Str (argv ! 1)] m2)) of
                                     (ptr, sz, m3) \<Rightarrow>
                                       (let m4 = printf ''File size    : %d byte(s)'' [Num (unat sz)]
                                                   (mos_fclose m3)
                                        in if sz > FLASHSIZE cfg
                                           then Inl (Returned,
                                                  printf ''Too large for 128KB flash - aborting'' [] m4)
                                           else Inr (crcexp, sz, m4))))))"

definition main :: "config \<Rightarrow> env \<Rightarrow> string list \<Rightarrow> machine \<Rightarrow> (outcome \<times> machine) option" where
  "main cfg env argv m0 =
     (case staging cfg env argv m0 of
        Inl r \<Rightarrow> Some r
      | Inr (crcexp, sz, m) \<Rightarrow> gate cfg env crcexp sz m)"

section \<open>Observations on a run and a small device\<close>

text \<open>The loop condition of line 106: a byte that is neither \<open>'y'\<close> nor \<open>'n'\<close>.\<close>

definition other_key :: "UINT8 \<Rightarrow> bool" where
  "other_key k \<longleftrightarrow> k \<noteq> 0x79 \<and> k \<noteq> 0x6E"

text \<open>The machine and the verdict a turn of the loop ends with.\<close>

fun machine_of :: "loop_result \<Rightarrow> machine" where
  "machine_of (Continue state v m) = m"
| "machine_of (Stop oc m) = m"

text \<open>The bulk copies of a trace, in order: destination, source, length.\<close>

fun copies :: "event list \<Rightarrow> (UINT24 \<times> UINT24 \<times> UINT24) list" where
  "copies [] = []"
| "copies (Fastmemcpy dst src len # es) = (dst, src, len) # copies es"
| "copies (e # es) = copies es"

text \<open>The number of bytes that the reads of a trace have stored.\<close>

fun loaded :: "event list \<Rightarrow> nat" where
  "loaded [] = 0"
| "loaded (Fread ptr n # es) = n + loaded es"
| "loaded (e # es) = loaded es"

text \<open>
  The page writes as the specification words them (section 4.3, step 3): for an image of
  \<open>len\<close> bytes, \<open>ceil(len / pagesize)\<close> pages, page \<open>i\<close> written from \<open>src + i * pagesize\<close> to
  \<open>dst + i * pagesize\<close>, the final page with \<open>len mod pagesize\<close> bytes if that is nonzero and
  with a full page otherwise.
\<close>

definition spec_page_writes :: "nat \<Rightarrow> nat \<Rightarrow> UINT24 \<Rightarrow> UINT24 \<Rightarrow> (UINT24 \<times> UINT24 \<times> UINT24) list" where
  "spec_page_writes pagesize len dst src =
     map (\<lambda>i. (dst + of_nat (i * pagesize), src + of_nat (i * pagesize),
                of_nat (if Suc i = (len + pagesize - 1) div pagesize
                        then (if len mod pagesize \<noteq> 0 then len mod pagesize else pagesize)
                        else pagesize)))
         [0..<(len + pagesize - 1) div pagesize]"

text \<open>
  The events of one pass, as functions of the length of the image, of where the page writes
  start and of where they read from: the erase of every page (lines 147 to 163), the page
  writes (lines 165 to 190), the verification (lines 191 to 196), the verdict.
\<close>

definition erase_events :: "config \<Rightarrow> event list" where
  "erase_events cfg =
     [Printf ''Erasing flash... '' [], EnableFlashKeyRegister, RegWrite FLASH_PROT 0,
      EnableFlashKeyRegister, RegWrite FLASH_FDIV 0x5F] @
     concat (map (\<lambda>i. [RegWrite FLASH_PAGE (ucast (of_nat i :: UINT24)), RegWrite FLASH_PGCTL 0x02])
                 [0..<unat (FLASHPAGES cfg)])"

definition write_events :: "config \<Rightarrow> UINT24 \<Rightarrow> UINT24 \<Rightarrow> UINT24 \<Rightarrow> event list" where
  "write_events cfg sz ato afrom =
     (case page_plan cfg sz of
        (pagemax, lastpagebytes) \<Rightarrow>
          Printf ''Writing new firmware...'' [] #
          concat (map (\<lambda>i. [Printf ''Writing flash page %03d/%03d'' [Num (Suc i), Num (unat pagemax)],
                              Fastmemcpy (ato + of_nat i * PAGESIZE cfg) (afrom + of_nat i * PAGESIZE cfg)
                                (if Suc i = unat pagemax then lastpagebytes else PAGESIZE cfg)])
                      [0..<unat pagemax]))"

definition verify_events :: "config \<Rightarrow> UINT24 \<Rightarrow> event list" where
  "verify_events cfg sz =
     [LockFlashKeyRegister, Printf [] [], Printf ''Verifying flash checksum... '' [],
      Crc32 (FLASHSTART cfg) sz]"

fun verdict_events :: "loop_result \<Rightarrow> event list" where
  "verdict_events (Continue systemreset v m) = [Printf ''- OK'' []]"
| "verdict_events (Continue recover v m) =
     [Printf ''Error occured during flash write / Attempting to flash backup firmware...'' []]"
| "verdict_events (Continue firmware v m) = []"
| "verdict_events (Stop Halted m) =
     [Printf ''Error occured during flash write / Backup recovery failed'' []]"
| "verdict_events (Stop oc m) = []"

text \<open>The events of the backup capture (lines 109 to 113) and of the reset (lines 135 to 143).\<close>

definition backup_events :: "config \<Rightarrow> event list" where
  "backup_events cfg =
     [Printf ''Backing up existing firmware... '' [],
      Fastmemcpy (BUFFER2 cfg) 0 (FLASHSIZE cfg), Crc32 0 (FLASHSIZE cfg), Di]"

definition reset_events :: "event list" where
  "reset_events =
     [Printf [] [],
      Printf ''Reset in %ds'' [Num 5], Delayms 1000, Printf ''Reset in %ds'' [Num 4], Delayms 1000,
      Printf ''Reset in %ds'' [Num 3], Delayms 1000, Printf ''Reset in %ds'' [Num 2], Delayms 1000,
      Printf ''Reset in %ds'' [Num 1], Delayms 1000,
      Putch 12, Delayms 500, Reset]"

text \<open>
  The operations on the flash and its controller: unlocking and locking the key register,
  a write to a controller register, a bulk copy, and what frames them (interrupts off, reset).
\<close>

fun flash_op :: "event \<Rightarrow> bool" where
  "flash_op EnableFlashKeyRegister = True"
| "flash_op LockFlashKeyRegister = True"
| "flash_op (RegWrite r v) = True"
| "flash_op (Fastmemcpy dst src len) = True"
| "flash_op Di = True"
| "flash_op Reset = True"
| "flash_op e = False"

text \<open>
  A device that answers: whenever a status register is polled, the erase-busy bit is clear
  and the transmitter-empty bit is set after finitely many further reads.
\<close>

definition responsive :: "env \<Rightarrow> bool" where
  "responsive env \<longleftrightarrow>
     (\<forall>t. \<exists>d. pgctl env (t + d) AND 0x02 = 0) \<and> (\<forall>t. \<exists>d. uart_lsr env (t + d) AND 0x40 \<noteq> 0)"

text \<open>
  The flash consists of its pages, and the 8-bit page-select register can name each of them.
\<close>

definition geometry_ok :: "config \<Rightarrow> bool" where
  "geometry_ok cfg \<longleftrightarrow>
     0 < PAGESIZE cfg \<and> unat (FLASHPAGES cfg) \<le> 256 \<and>
     unat (FLASHPAGES cfg) * unat (PAGESIZE cfg) = unat (FLASHSIZE cfg)"

text \<open>
  The layout the backup relies on: the flash sits at address 0, where line 110 reads it, and
  the second buffer lies behind the flash, below the top of the address space.
\<close>

definition layout_ok :: "config \<Rightarrow> bool" where
  "layout_ok cfg \<longleftrightarrow>
     FLASHSTART cfg = 0 \<and> unat (FLASHSIZE cfg) \<le> unat (BUFFER2 cfg) \<and>
     unat (BUFFER2 cfg) + unat (FLASHSIZE cfg) \<le> 2 ^ 24"

text \<open>
  The device is untouched between two machines: no operation on the flash or its controller
  was added to the trace, the controller registers are as they were, and the flash, when it
  is protected (as the firmware leaves it), holds what it held.
\<close>

definition untouched :: "config \<Rightarrow> machine \<Rightarrow> machine \<Rightarrow> bool" where
  "untouched cfg m m' \<longleftrightarrow>
     filter flash_op (trace m') = filter flash_op (trace m) \<and>
     flash_key m' = flash_key m \<and> flash_prot m' = flash_prot m \<and> flash_page m' = flash_page m \<and>
     (flash_prot m \<noteq> 0 \<longrightarrow> (\<forall>a. in_flash cfg a \<longrightarrow> mem m' a = mem m a))"

text \<open>
  A device small enough to run by hand: a flash of four pages of two bytes at address 0,
  the two staging buffers behind it, files read in blocks of three bytes. The checksum of
  the examples is a polynomial hash; the theorems hold for every checksum function.
\<close>

definition demo_cfg :: config where
  "demo_cfg = \<lparr>FLASHSTART = 0, FLASHSIZE = 8, FLASHPAGES = 4, PAGESIZE = 2,
               BUFFER1 = 16, BUFFER2 = 24, BLOCKSIZE = 3\<rparr>"

definition sum32 :: "UINT8 list \<Rightarrow> UINT32" where
  "sum32 bs = foldl (\<lambda>c b. c * 31 + ucast b + 1) 0 bs"

definition demo_env :: "UINT8 list \<Rightarrow> env" where
  "demo_env bs =
     \<lparr>files = (\<lambda>name. if name = ''fw.bin'' then Some bs else None),
      strtoll = (\<lambda>s. if s = ''sum'' then (sum32 bs, 0) else if s = ''1'' then (1, 0) else (0, 1)),
      crc32 = sum32,
      program = (\<lambda>a old d. old AND d),
      pgctl = (\<lambda>n. 0),
      uart_lsr = (\<lambda>n. 0x40)\<rparr>"

text \<open>
  The same device with one fault: the flash cell at address 0 does not take the byte 1 and
  holds 0 instead. Every other store succeeds.
\<close>

definition flaky_env :: "UINT8 list \<Rightarrow> env" where
  "flaky_env bs =
     (demo_env bs)\<lparr>program := (\<lambda>a old d. if a = 0 \<and> d = 1 then 0 else old AND d)\<rparr>"

definition demo_machine :: "UINT8 list \<Rightarrow> machine" where
  "demo_machine ks =
     \<lparr>mem = (\<lambda>a. if a < 8 then 0x10 + ucast a else 0),
      flash_key = False, flash_prot = 0xFF, flash_page = 0, clock = 0,
      keys = ks, file_rest = [], trace = []\<rparr>"

text \<open>The small machine with the image \<open>[1, 2, 3]\<close> staged in the first buffer.\<close>

definition staged_machine :: "UINT8 list \<Rightarrow> machine" where
  "staged_machine ks =
     (demo_machine ks)
       \<lparr>mem := (\<lambda>a. if a < 8 then 0x10 + ucast a
                    else if a = 16 then 1 else if a = 17 then 2 else if a = 18 then 3 else 0)\<rparr>"



section \<open>Basic facts\<close>

lemma emit_fields [simp]:
  "trace (emit e m) = trace m @ [e]"
  "mem (emit e m) = mem m"
  "flash_key (emit e m) = flash_key m"
  "flash_prot (emit e m) = flash_prot m"
  "flash_page (emit e m) = flash_page m"
  "clock (emit e m) = clock m"
  "keys (emit e m) = keys m"
  "file_rest (emit e m) = file_rest m"
  by (simp_all add: emit_def)

lemmas [simp] = printf_def delayms_def di_def

lemma poke_fields [simp]:
  "trace (poke cfg env a b m) = trace m"
  "flash_key (poke cfg env a b m) = flash_key m"
  "flash_prot (poke cfg env a b m) = flash_prot m"
  "flash_page (poke cfg env a b m) = flash_page m"
  "clock (poke cfg env a b m) = clock m"
  "keys (poke cfg env a b m) = keys m"
  "file_rest (poke cfg env a b m) = file_rest m"
  by (simp_all add: poke_def)

lemma copy_bytes_fields [simp]:
  "trace (copy_bytes cfg env dst src n m) = trace m"
  "flash_key (copy_bytes cfg env dst src n m) = flash_key m"
  "flash_prot (copy_bytes cfg env dst src n m) = flash_prot m"
  "flash_page (copy_bytes cfg env dst src n m) = flash_page m"
  "clock (copy_bytes cfg env dst src n m) = clock m"
  "keys (copy_bytes cfg env dst src n m) = keys m"
  "file_rest (copy_bytes cfg env dst src n m) = file_rest m"
  by (induction n arbitrary: dst src m; simp)+

lemma store_bytes_fields [simp]:
  "trace (store_bytes cfg env a bs m) = trace m"
  "flash_key (store_bytes cfg env a bs m) = flash_key m"
  "flash_prot (store_bytes cfg env a bs m) = flash_prot m"
  "flash_page (store_bytes cfg env a bs m) = flash_page m"
  "clock (store_bytes cfg env a bs m) = clock m"
  "keys (store_bytes cfg env a bs m) = keys m"
  "file_rest (store_bytes cfg env a bs m) = file_rest m"
  by (induction bs arbitrary: a m; simp)+

lemma fastmemcpy_fields [simp]:
  "trace (fastmemcpy cfg env dst src len m) = trace m @ [Fastmemcpy dst src len]"
  "flash_key (fastmemcpy cfg env dst src len m) = flash_key m"
  "flash_prot (fastmemcpy cfg env dst src len m) = flash_prot m"
  "flash_page (fastmemcpy cfg env dst src len m) = flash_page m"
  "clock (fastmemcpy cfg env dst src len m) = clock m"
  "keys (fastmemcpy cfg env dst src len m) = keys m"
  "file_rest (fastmemcpy cfg env dst src len m) = file_rest m"
  by (simp_all add: fastmemcpy_def)

lemma key_fields [simp]:
  "trace (enableFlashKeyRegister m) = trace m @ [EnableFlashKeyRegister]"
  "mem (enableFlashKeyRegister m) = mem m"
  "flash_key (enableFlashKeyRegister m) = True"
  "flash_prot (enableFlashKeyRegister m) = flash_prot m"
  "flash_page (enableFlashKeyRegister m) = flash_page m"
  "clock (enableFlashKeyRegister m) = clock m"
  "keys (enableFlashKeyRegister m) = keys m"
  "file_rest (enableFlashKeyRegister m) = file_rest m"
  "trace (lockFlashKeyRegister m) = trace m @ [LockFlashKeyRegister]"
  "mem (lockFlashKeyRegister m) = mem m"
  "flash_key (lockFlashKeyRegister m) = False"
  "flash_prot (lockFlashKeyRegister m) = flash_prot m"
  "flash_page (lockFlashKeyRegister m) = flash_page m"
  "clock (lockFlashKeyRegister m) = clock m"
  "keys (lockFlashKeyRegister m) = keys m"
  "file_rest (lockFlashKeyRegister m) = file_rest m"
  by (simp_all add: enableFlashKeyRegister_def lockFlashKeyRegister_def)

lemma reg_write_fields [simp]:
  "trace (reg_write cfg r v m) = trace m @ [RegWrite r v]"
  "clock (reg_write cfg r v m) = clock m"
  "keys (reg_write cfg r v m) = keys m"
  "file_rest (reg_write cfg r v m) = file_rest m"
  by (cases r; simp add: reg_write_def)+

lemma unprotect_fields [simp]:
  "trace (unprotect cfg m) = trace m @
     [Printf ''Erasing flash... '' [], EnableFlashKeyRegister, RegWrite FLASH_PROT 0,
      EnableFlashKeyRegister, RegWrite FLASH_FDIV 0x5F]"
  "mem (unprotect cfg m) = mem m"
  "flash_prot (unprotect cfg m) = 0"
  "flash_key (unprotect cfg m) = False"
  "flash_page (unprotect cfg m) = flash_page m"
  "clock (unprotect cfg m) = clock m"
  "keys (unprotect cfg m) = keys m"
  "file_rest (unprotect cfg m) = file_rest m"
  by (simp_all add: unprotect_def reg_write_def)

lemma wait_erase_frame:
  assumes "wait_erase env m = Some m'"
  shows "m' = m\<lparr>clock := clock m'\<rparr>"
proof (rule wait_erase.raw_induct [where P = "\<lambda>env m m'. m' = m\<lparr>clock := clock m'\<rparr>", OF _ assms],
    goal_cases)
  case (1 f env m m')
  show ?case
  proof (cases "pgctl env (clock m) AND 2 \<noteq> 0")
    case True
    with 1 have "m' = m\<lparr>clock := Suc (clock m)\<rparr>\<lparr>clock := clock m'\<rparr>"
      by auto
    then show ?thesis by simp
  next
    case False
    with 1 show ?thesis by auto
  qed
qed

lemma uart_wait_frame:
  assumes "uart_wait env m = Some m'"
  shows "m' = m\<lparr>clock := clock m'\<rparr>"
proof (rule uart_wait.raw_induct [where P = "\<lambda>env m m'. m' = m\<lparr>clock := clock m'\<rparr>", OF _ assms],
    goal_cases)
  case (1 f env m m')
  show ?case
  proof (cases "uart_lsr env (clock m) AND 0x40 = 0")
    case True
    with 1 have "m' = m\<lparr>clock := Suc (clock m)\<rparr>\<lparr>clock := clock m'\<rparr>"
      by auto
    then show ?thesis by simp
  next
    case False
    with 1 show ?thesis by auto
  qed
qed

lemma wait_erase_fields:
  assumes "wait_erase env m = Some m'"
  shows "trace m' = trace m \<and> mem m' = mem m \<and> flash_key m' = flash_key m \<and>
         flash_prot m' = flash_prot m \<and> flash_page m' = flash_page m \<and>
         keys m' = keys m \<and> file_rest m' = file_rest m"
proof -
  from wait_erase_frame [OF assms] obtain c where "m' = m\<lparr>clock := c\<rparr>"
    by blast
  then show ?thesis by simp
qed

lemma uart_wait_fields:
  assumes "uart_wait env m = Some m'"
  shows "trace m' = trace m \<and> mem m' = mem m \<and> flash_key m' = flash_key m \<and>
         flash_prot m' = flash_prot m \<and> flash_page m' = flash_page m \<and>
         keys m' = keys m \<and> file_rest m' = file_rest m"
proof -
  from uart_wait_frame [OF assms] obtain c where "m' = m\<lparr>clock := c\<rparr>"
    by blast
  then show ?thesis by simp
qed

lemma wait_erase_ready:
  "pgctl env (clock m + d) AND 0x02 = 0 \<Longrightarrow> \<exists>m'. wait_erase env m = Some m'"
proof (induction d arbitrary: m)
  case 0
  then show ?case by (subst wait_erase.simps) simp
next
  case (Suc d)
  show ?case
  proof (cases "pgctl env (clock m) AND 0x02 = 0")
    case True
    then show ?thesis by (subst wait_erase.simps) simp
  next
    case False
    from Suc.prems have "pgctl env (clock (m\<lparr>clock := Suc (clock m)\<rparr>) + d) AND 0x02 = 0"
      by simp
    from Suc.IH [OF this] False show ?thesis
      by (subst wait_erase.simps) simp
  qed
qed

lemma uart_wait_ready:
  "uart_lsr env (clock m + d) AND 0x40 \<noteq> 0 \<Longrightarrow> \<exists>m'. uart_wait env m = Some m'"
proof (induction d arbitrary: m)
  case 0
  then show ?case by (subst uart_wait.simps) simp
next
  case (Suc d)
  show ?case
  proof (cases "uart_lsr env (clock m) AND 0x40 = 0")
    case False
    then show ?thesis by (subst uart_wait.simps) simp
  next
    case True
    from Suc.prems have "uart_lsr env (clock (m\<lparr>clock := Suc (clock m)\<rparr>) + d) AND 0x40 \<noteq> 0"
      by simp
    from Suc.IH [OF this] True show ?thesis
      by (subst uart_wait.simps) simp
  qed
qed

lemma word_succ_unat: "(counter :: UINT24) < bound \<Longrightarrow> unat (counter + 1) = Suc (unat counter)"
  by unat_arith

lemma erase_pages_trace:
  "erase_pages cfg env counter m = Some m' \<Longrightarrow>
   trace m' = trace m @
     concat (map (\<lambda>i. [RegWrite FLASH_PAGE (ucast (counter + of_nat i)), RegWrite FLASH_PGCTL 0x02])
                 [0..<unat (FLASHPAGES cfg) - unat counter])"
proof (induction cfg env counter m rule: erase_pages.induct)
  case (1 cfg env counter m)
  show ?case
  proof (cases "counter < FLASHPAGES cfg")
    case False
    then have "unat (FLASHPAGES cfg) - unat counter = 0" by unat_arith
    with False "1.prems" show ?thesis
      by (simp add: erase_pages.simps [of cfg env counter])
  next
    case True
    define m1 where "m1 = reg_write cfg FLASH_PGCTL 0x02 (reg_write cfg FLASH_PAGE (ucast counter) m)"
    from True "1.prems" obtain m2 where w: "wait_erase env m1 = Some m2"
      and rec: "erase_pages cfg env (counter + 1) m2 = Some m'"
      unfolding m1_def by (subst (asm) erase_pages.simps) (auto split: option.splits)
    from wait_erase_fields [OF w] have t2: "trace m2 = trace m1"
      by simp
    have suc: "unat (counter + 1) = Suc (unat counter)"
      using True by (rule word_succ_unat)
    from True have "unat counter < unat (FLASHPAGES cfg)"
      by (simp add: word_less_nat_alt)
    then have upt: "[0..<unat (FLASHPAGES cfg) - unat counter] =
        0 # map Suc [0..<unat (FLASHPAGES cfg) - Suc (unat counter)]"
      by (metis Suc_diff_Suc map_Suc_upt upt_conv_Cons zero_less_diff)
    from "1.IH" [OF True w [unfolded m1_def] rec]
    have "trace m' = trace m2 @
       concat (map (\<lambda>i. [RegWrite FLASH_PAGE (ucast (counter + 1 + of_nat i)), RegWrite FLASH_PGCTL 0x02])
                 [0..<unat (FLASHPAGES cfg) - unat (counter + 1)])" .
    then show ?thesis
      unfolding suc t2 by (simp add: m1_def upt o_def add.assoc)
  qed
qed

lemma copies_append [simp]: "copies (xs @ ys) = copies xs @ copies ys"
  by (induction xs rule: copies.induct) simp_all

lemma loaded_append [simp]: "loaded (xs @ ys) = loaded xs + loaded ys"
  by (induction xs rule: loaded.induct) simp_all

lemma write_pages_trace:
  "write_pages cfg env pagemax lastpagebytes counter ato afrom m = (ato', afrom', m') \<Longrightarrow>
   copies (trace m') = copies (trace m) @
     map (\<lambda>i. (ato + of_nat i * PAGESIZE cfg, afrom + of_nat i * PAGESIZE cfg,
                if Suc (unat counter + i) = unat pagemax then lastpagebytes else PAGESIZE cfg))
         [0..<unat pagemax - unat counter]"
proof (induction cfg env pagemax lastpagebytes counter ato afrom m rule: write_pages.induct)
  case (1 cfg env pagemax lastpagebytes counter ato afrom m)
  show ?case
  proof (cases "counter < pagemax")
    case False
    then have "unat pagemax - unat counter = 0" by unat_arith
    with False "1.prems" show ?thesis
      by (simp add: write_pages.simps [of cfg env pagemax lastpagebytes counter])
  next
    case True
    then have suc: "unat (counter + 1) = Suc (unat counter)"
      by (rule word_succ_unat)
    from True have lt: "unat counter < unat pagemax"
      by (simp add: word_less_nat_alt)
    then have upt: "[0..<unat pagemax - unat counter] = 0 # map Suc [0..<unat pagemax - Suc (unat counter)]"
      by (metis Suc_diff_Suc map_Suc_upt upt_conv_Cons zero_less_diff)
    have last: "counter = pagemax - 1 \<longleftrightarrow> Suc (unat counter) = unat pagemax"
      using True by unat_arith
    define m1 where "m1 = (if counter = pagemax - 1
              then fastmemcpy cfg env ato afrom lastpagebytes
                     (printf ''Writing flash page %03d/%03d''
                        [Num (unat (counter + 1)), Num (unat pagemax)] m)
              else fastmemcpy cfg env ato afrom (PAGESIZE cfg)
                     (printf ''Writing flash page %03d/%03d''
                        [Num (unat (counter + 1)), Num (unat pagemax)] m))"
    from True "1.prems" have rec: "write_pages cfg env pagemax lastpagebytes (counter + 1)
             (ato + PAGESIZE cfg) (afrom + PAGESIZE cfg) m1 = (ato', afrom', m')"
      unfolding m1_def by (subst (asm) write_pages.simps) simp
    have m1: "copies (trace m1) = copies (trace m) @
        [(ato, afrom, if Suc (unat counter) = unat pagemax then lastpagebytes else PAGESIZE cfg)]"
      by (simp add: m1_def last)
    from "1.IH" [OF True rec [unfolded m1_def]]
    have "copies (trace m') = copies (trace m1) @
       map (\<lambda>i. (ato + PAGESIZE cfg + of_nat i * PAGESIZE cfg,
                  afrom + PAGESIZE cfg + of_nat i * PAGESIZE cfg,
                  if Suc (unat (counter + 1) + i) = unat pagemax
                  then lastpagebytes else PAGESIZE cfg))
           [0..<unat pagemax - unat (counter + 1)]"
      unfolding m1_def .
    then show ?thesis
      unfolding suc m1 by (simp add: upt o_def distrib_right add.assoc)
  qed
qed

section \<open>The page plan\<close>

lemma ceil_div:
  fixes n p :: nat
  assumes "0 < p"
  shows "(n + p - 1) div p = (if n mod p \<noteq> 0 then Suc (n div p) else n div p)"
proof -
  define q r where "q = n div p" and "r = n mod p"
  have n: "n = r + q * p" by (simp add: q_def r_def)
  have r: "r < p" using assms by (simp add: r_def)
  show ?thesis
  proof (cases "r = 0")
    case True
    with n assms have "n + p - 1 = (p - 1) + q * p" by simp
    moreover have "(p - 1 + q * p) div p = q + (p - 1) div p"
      using assms by (intro div_mult_self1) simp
    moreover have "(p - 1) div p = 0" using assms by simp
    ultimately show ?thesis using True by (simp add: q_def r_def)
  next
    case False
    with n have "n + p - 1 = (r - 1) + Suc q * p" by simp
    moreover have "(r - 1 + Suc q * p) div p = Suc q + (r - 1) div p"
      using assms by (intro div_mult_self1) simp
    moreover have "(r - 1) div p = 0" using r by simp
    ultimately show ?thesis using False by (simp add: q_def r_def)
  qed
qed

lemma page_plan_unat:
  assumes "0 < PAGESIZE cfg" and "page_plan cfg sz = (pagemax, lastpagebytes)"
  shows "unat pagemax = (unat sz + unat (PAGESIZE cfg) - 1) div unat (PAGESIZE cfg)"
    and "unat lastpagebytes =
           (if unat sz mod unat (PAGESIZE cfg) \<noteq> 0 then unat sz mod unat (PAGESIZE cfg)
            else unat (PAGESIZE cfg))"
proof -
  let ?p = "unat (PAGESIZE cfg)"
  from assms(1) have p: "0 < ?p" by (simp add: word_less_nat_alt)
  have mod0: "sz mod PAGESIZE cfg \<noteq> 0 \<longleftrightarrow> unat sz mod ?p \<noteq> 0"
    by (metis unat_mod unat_eq_zero)
  note ceil = ceil_div [OF p, of "unat sz"]
  show "unat lastpagebytes = (if unat sz mod ?p \<noteq> 0 then unat sz mod ?p else ?p)"
    using assms(2) mod0 by (auto simp: page_plan_def unat_mod split: if_splits)
  show "unat pagemax = (unat sz + ?p - 1) div ?p"
  proof (cases "sz mod PAGESIZE cfg \<noteq> 0")
    case False
    with assms(2) have "pagemax = sz div PAGESIZE cfg"
      by (auto simp: page_plan_def)
    then have "unat pagemax = unat sz div ?p"
      by (simp add: unat_div)
    with False mod0 ceil show ?thesis by simp
  next
    case True
    with mod0 have "?p \<noteq> 1" by auto
    with p have "2 \<le> ?p" by simp
    then have "unat sz div ?p \<le> unat sz div 2"
      by (simp add: div_le_mono2)
    moreover have "unat sz < 2 ^ 24"
      using unsigned_less [of sz, where 'a = nat] by simp
    ultimately have "unat (sz div PAGESIZE cfg) + unat (1 :: UINT24) < 2 ^ LENGTH(24)"
      by (simp add: unat_div)
    then have "unat (sz div PAGESIZE cfg + 1) = unat (sz div PAGESIZE cfg) + unat (1 :: UINT24)"
      by (simp only: unat_add_lem [THEN iffD1])
    then have "unat (sz div PAGESIZE cfg + 1) = Suc (unat sz div ?p)"
      by (simp add: unat_div)
    moreover from True assms(2) have "pagemax = sz div PAGESIZE cfg + 1"
      by (auto simp: page_plan_def)
    ultimately show ?thesis
      using True mod0 ceil by simp
  qed
qed


lemma sum_list_all_equal:
  "(\<And>x. x \<in> set xs \<Longrightarrow> f x = (c :: nat)) \<Longrightarrow> sum_list (map f xs) = length xs * c"
  by (induction xs) simp_all

lemma spec_page_writes_sum:
  assumes "0 < ps" and "ps < 2 ^ 24"
  shows "sum_list (map (\<lambda>(d, s, n). unat n) (spec_page_writes ps len dst src)) = len"
proof -
  define count where "count = (len + ps - 1) div ps"
  define final where "final = (if len mod ps \<noteq> 0 then len mod ps else ps)"
  have count_eq: "count = (if len mod ps \<noteq> 0 then Suc (len div ps) else len div ps)"
    unfolding count_def by (rule ceil_div [OF assms(1)])
  have final_le: "final \<le> ps"
    using assms(1) by (simp add: final_def less_imp_le)
  have lens: "map (\<lambda>(d, s, n). unat n) (spec_page_writes ps len dst src) =
      map (\<lambda>i. if Suc i = count then final else ps) [0..<count]"
    using assms(2) final_le
    by (auto simp: spec_page_writes_def count_def final_def o_def unat_of_nat)
  show ?thesis
  proof (cases count)
    case 0
    then have "len mod ps = 0" "len div ps = 0"
      using count_eq by (auto split: if_splits)
    then have "len = 0"
      by (metis div_mult_mod_eq add.right_neutral mult_zero_left)
    with 0 lens show ?thesis by simp
  next
    case (Suc k)
    have "sum_list (map (\<lambda>i. if i = k then final else ps) [0..<k]) = length [0..<k] * ps"
      by (rule sum_list_all_equal) simp
    then have "sum_list (map (\<lambda>i. if Suc i = count then final else ps) [0..<count]) = k * ps + final"
      by (simp add: Suc)
    moreover have "k * ps + final = len"
    proof (cases "len mod ps \<noteq> 0")
      case True
      with Suc have "k = len div ps"
        using count_eq by simp
      with True show ?thesis by (simp add: final_def)
    next
      case False
      with Suc have "Suc k = len div ps"
        using count_eq by simp
      then have "Suc k * ps = len"
        using False by (metis div_mult_mod_eq add.right_neutral)
      with False show ?thesis by (simp add: final_def)
    qed
    ultimately show ?thesis using lens by simp
  qed
qed

lemma page_offsets_below:
  fixes i ps len :: nat
  assumes "0 < ps" and "i < (len + ps - 1) div ps"
  shows "i * ps < len"
proof -
  have "Suc i * ps \<le> (len + ps - 1) div ps * ps"
    using assms(2) by (intro mult_le_mono1) simp
  also have "\<dots> \<le> len + ps - 1"
    by (rule div_times_less_eq_dividend)
  finally have "i * ps + ps \<le> len + ps - 1"
    by simp
  with assms(1) show ?thesis by linarith
qed

lemma spec_page_writes_sorted:
  assumes "0 < ps" and "unat dst + len \<le> 2 ^ 24" and "unat src + len \<le> 2 ^ 24"
  shows "sorted_wrt (<) (map (\<lambda>(d, s, n). d) (spec_page_writes ps len dst src))"
    and "sorted_wrt (<) (map (\<lambda>(d, s, n). s) (spec_page_writes ps len dst src))"
proof -
  have off: "unat (a + of_nat (i * ps) :: UINT24) = unat a + i * ps"
    if "i < (len + ps - 1) div ps" and "unat a + len \<le> 2 ^ 24" for a i
  proof -
    from page_offsets_below [OF assms(1) that(1)] that(2) have "unat a + i * ps < 2 ^ 24"
      by simp
    then have w: "unat (of_nat (i * ps) :: UINT24) = i * ps"
      by (simp add: unat_of_nat del: of_nat_mult)
    with \<open>unat a + i * ps < 2 ^ 24\<close>
    have "unat a + unat (of_nat (i * ps) :: UINT24) < 2 ^ LENGTH(24)"
      by simp
    then have "unat (a + of_nat (i * ps) :: UINT24) = unat a + unat (of_nat (i * ps) :: UINT24)"
      by (simp only: unat_add_lem [THEN iffD1])
    with w show ?thesis by simp
  qed
  have key: "(a + of_nat (i * ps) :: UINT24) < a + of_nat (j * ps)"
    if "i < j" and "j < (len + ps - 1) div ps" and "unat a + len \<le> 2 ^ 24" for a i j
  proof -
    from that have "i < (len + ps - 1) div ps" by simp
    from off [OF this that(3)] off [OF that(2,3)] that(1) assms(1) show ?thesis
      by (simp add: word_less_nat_alt)
  qed
  show "sorted_wrt (<) (map (\<lambda>(d, s, n). d) (spec_page_writes ps len dst src))"
    using assms(2) key
    by (simp add: spec_page_writes_def sorted_wrt_iff_nth_less del: of_nat_mult)
  show "sorted_wrt (<) (map (\<lambda>(d, s, n). s) (spec_page_writes ps len dst src))"
    using assms(3) key
    by (simp add: spec_page_writes_def sorted_wrt_iff_nth_less del: of_nat_mult)
qed

lemma write_pages_spec:
  assumes "0 < PAGESIZE cfg"
    and "page_plan cfg sz = (pagemax, lastpagebytes)"
    and "write_pages cfg env pagemax lastpagebytes 0 ato afrom m = (ato', afrom', m')"
  shows "copies (trace m') =
           copies (trace m) @ spec_page_writes (unat (PAGESIZE cfg)) (unat sz) ato afrom"
proof -
  note plan = page_plan_unat [OF assms(1,2)]
  have "(if Suc i = unat pagemax then lastpagebytes else PAGESIZE cfg) =
        of_nat (if Suc i = unat pagemax
                then (if unat sz mod unat (PAGESIZE cfg) \<noteq> 0 then unat sz mod unat (PAGESIZE cfg)
                      else unat (PAGESIZE cfg))
                else unat (PAGESIZE cfg))" for i
    using plan(2) [symmetric] by simp
  then show ?thesis
    using write_pages_trace [OF assms(3)] plan(1)
    by (simp add: spec_page_writes_def)
qed

section \<open>The prompt\<close>

lemma confirm_scan:
  "other_key response \<Longrightarrow>
   confirm response m =
     (case dropWhile other_key (keys m) of
        [] \<Rightarrow> None
      | c # rest \<Rightarrow>
          Some (c, m\<lparr>keys := rest,
                     trace := trace m @ map Getch (takeWhile other_key (keys m)) @ [Getch c]\<rparr>))"
proof (induction "keys m" arbitrary: m response)
  case Nil
  then show ?case
    by (subst confirm.simps) (simp add: getch_def other_key_def)
next
  case (Cons k ks)
  from Cons.hyps(2) have keys: "keys m = k # ks" by simp
  let ?m = "emit (Getch k) (m\<lparr>keys := ks\<rparr>)"
  have unfold: "confirm response m = confirm k ?m"
    using Cons.prems keys by (subst confirm.simps) (simp add: getch_def other_key_def)
  show ?case
  proof (cases "other_key k")
    case True
    have "ks = keys ?m" by simp
    from Cons.hyps(1) [OF this True] unfold keys True show ?thesis
      by (cases "dropWhile other_key ks")
         (simp_all add: emit_def del: dropWhile_eq_Nil_conv)
  next
    case False
    then have "confirm k ?m = Some (k, ?m)"
      by (subst confirm.simps) (auto simp: other_key_def)
    with False keys unfold show ?thesis
      by (simp add: emit_def)
  qed
qed

text \<open>
  Claim C7. Once the checksum of the staged image matches, the prompt is printed and the
  loop of line 106 takes bytes from the keyboard up to and including the first byte that is
  \<open>'y'\<close> (0x79) or \<open>'n'\<close> (0x6E); every other byte, upper-case \<open>'Y'\<close> and \<open>'N'\<close> included, is
  dropped and the loop asks for the next one (the prompt text itself is printed once, before
  the loop). On \<open>'y'\<close> the run goes on to the programming of the flash, on \<open>'n'\<close> it prints
  the abort message and returns. When no \<open>'y'\<close> or \<open>'n'\<close> ever comes, the loop keeps waiting.
\<close>

theorem prompt_accepts_exactly_y_and_n:
  assumes "crc32 env (peek m (BUFFER1 cfg) (unat sz)) = crcexp"
  shows "gate cfg env crcexp sz m =
     (case dropWhile other_key (keys m) of
        [] \<Rightarrow> None
      | c # rest \<Rightarrow>
          (let m3 = m\<lparr>keys := rest,
                      trace := trace m @
                        [Printf ''Testing CRC32: 0x%08lx'' [Num (unat crcexp)],
                         Crc32 (BUFFER1 cfg) sz,
                         Printf ''CRC32 result : 0x%08lx'' [Num (unat crcexp)],
                         Printf ''OK'' [],
                         Printf ''Erase and program flash (y/n)? '' []] @
                        map Getch (takeWhile other_key (keys m)) @ [Getch c]\<rparr>
           in if c = 0x79 then programming cfg env crcexp sz m3
              else Some (Returned, printf ''User abort'' [] m3)))"
proof -
  have zero: "other_key 0" by (simp add: other_key_def)
  show ?thesis
    using assms
    by (cases "dropWhile other_key (keys m)")
       (simp_all add: gate_def crc32_call_def peek_def Let_def confirm_scan [OF zero]
                      emit_def
                 del: dropWhile_eq_Nil_conv)
qed

text \<open>
  The staged image \<open>[1, 2, 3]\<close> with its checksum 2019, and the keys \<open>Y N n y\<close>: the two
  capitals are dropped, \<open>n\<close> aborts, \<open>y\<close> is left unread.
\<close>

theorem prompt_accepts_exactly_y_and_n_witness:
  "crc32 (demo_env [1, 2, 3])
      (peek ((demo_machine [0x59, 0x4E, 0x6E, 0x79])
               \<lparr>mem := (\<lambda>a. if a = 16 then 1 else if a = 17 then 2 else if a = 18 then 3 else 0)\<rparr>)
         (BUFFER1 demo_cfg) (unat (3 :: UINT24))) = 2019
   \<and> map_option (\<lambda>(oc, m). (oc, keys m, trace m))
        (gate demo_cfg (demo_env [1, 2, 3]) 2019 3
           ((demo_machine [0x59, 0x4E, 0x6E, 0x79])
              \<lparr>mem := (\<lambda>a. if a = 16 then 1 else if a = 17 then 2 else if a = 18 then 3 else 0)\<rparr>)) =
       Some (Returned, [0x79],
         [Printf ''Testing CRC32: 0x%08lx'' [Num 2019],
          Crc32 16 3,
          Printf ''CRC32 result : 0x%08lx'' [Num 2019],
          Printf ''OK'' [],
          Printf ''Erase and program flash (y/n)? '' [],
          Getch 0x59, Getch 0x4E, Getch 0x6E,
          Printf ''User abort'' []])"
proof -
  let ?m = "(demo_machine [0x59, 0x4E, 0x6E, 0x79])
              \<lparr>mem := (\<lambda>a. if a = 16 then 1 else if a = 17 then 2 else if a = 18 then 3 else 0)\<rparr>"
  have h: "crc32 (demo_env [1, 2, 3]) (peek ?m (BUFFER1 demo_cfg) (unat (3 :: UINT24))) = 2019"
    by (simp add: demo_env_def demo_cfg_def peek_def sum32_def upt_rec)
  show ?thesis
    using h prompt_accepts_exactly_y_and_n [OF h]
    by (simp add: other_key_def demo_machine_def demo_cfg_def emit_def)
qed

section \<open>The page writes of a pass\<close>

lemma copies_erase_events [simp]:
  "copies (concat (map (\<lambda>i. [RegWrite r (f i), RegWrite r' (g i)]) xs)) = []"
  by (induction xs) simp_all

lemma erase_pages_total:
  assumes "responsive env"
  shows "\<exists>m'. erase_pages cfg env counter m = Some m'"
  using assms
proof (induction cfg env counter m rule: erase_pages.induct)
  case (1 cfg env counter m)
  show ?case
  proof (cases "counter < FLASHPAGES cfg")
    case False
    then show ?thesis by (subst erase_pages.simps) simp
  next
    case True
    define m1 where "m1 = reg_write cfg FLASH_PGCTL 0x02 (reg_write cfg FLASH_PAGE (ucast counter) m)"
    from "1.prems" obtain d where "pgctl env (clock m1 + d) AND 0x02 = 0"
      unfolding responsive_def by blast
    from wait_erase_ready [OF this] obtain m2 where w: "wait_erase env m1 = Some m2"
      by blast
    from "1.IH" [OF True w [unfolded m1_def] "1.prems"] obtain m' where
      "erase_pages cfg env (counter + 1) m2 = Some m'" by blast
    with True w show ?thesis
      unfolding m1_def by (subst erase_pages.simps) simp
  qed
qed

lemma verify_fields [simp]:
  "copies (trace (machine_of (verify cfg env state v m))) = copies (trace m)"
  "mem (machine_of (verify cfg env state v m)) = mem m"
  "flash_prot (machine_of (verify cfg env state v m)) = flash_prot m"
  "keys (machine_of (verify cfg env state v m)) = keys m"
  by (cases state; simp add: verify_def crc32_call_def Let_def)+

lemma pass_total:
  assumes "responsive env"
  shows "\<exists>r. pass cfg env state v m = Some r"
proof -
  from erase_pages_total [OF assms] obtain m1 where
    "erase_pages cfg env 0 (unprotect cfg m) = Some m1" by blast
  then show ?thesis
    by (simp add: pass_def split: prod.splits)
qed

lemma pass_copies:
  assumes "0 < PAGESIZE cfg" and "pass cfg env state v m = Some r"
  shows "copies (trace (machine_of r)) =
           copies (trace m) @
           spec_page_writes (unat (PAGESIZE cfg)) (unat (size_v v)) (addressto v) (addressfrom v)"
proof -
  from assms(2) obtain m1 pagemax lastpagebytes ato afrom m2 where
    e: "erase_pages cfg env 0 (unprotect cfg m) = Some m1"
    and p: "page_plan cfg (size_v v) = (pagemax, lastpagebytes)"
    and w: "write_pages cfg env pagemax lastpagebytes 0 (addressto v) (addressfrom v)
              (printf ''Writing new firmware...'' [] m1) = (ato, afrom, m2)"
    and r: "r = verify cfg env state (v\<lparr>addressto := ato, addressfrom := afrom\<rparr>) m2"
    by (auto simp: pass_def split: option.splits prod.splits)
  from erase_pages_trace [OF e] have "copies (trace m1) = copies (trace m)"
    by simp
  with write_pages_spec [OF assms(1) p w] show ?thesis
    by (simp add: r)
qed

text \<open>
  Claim C3. In a pass over an image of \<open>len\<close> bytes the bulk copies are exactly the page
  writes of the plan: \<open>ceil(len / pageSize)\<close> of them (the value of \<open>pagemax\<close>), page \<open>i\<close>
  going from \<open>addressfrom + i * pageSize\<close> to \<open>addressto + i * pageSize\<close>, full pages except
  the final one, whose length (the value of \<open>lastpagebytes\<close>) is \<open>len mod pageSize\<close> when that
  is nonzero and \<open>pageSize\<close> otherwise. The lengths add up to \<open>len\<close>, and where the image
  fits below the top of the address space, destinations and sources strictly increase.
\<close>

theorem page_writes_follow_plan:
  assumes "0 < PAGESIZE cfg"
    and "pass cfg env state v m = Some r"
    and "unat (addressto v) + unat (size_v v) \<le> 2 ^ 24"
    and "unat (addressfrom v) + unat (size_v v) \<le> 2 ^ 24"
  shows "let ps = unat (PAGESIZE cfg); len = unat (size_v v);
             ws = spec_page_writes ps len (addressto v) (addressfrom v)
         in copies (trace (machine_of r)) = copies (trace m) @ ws
          \<and> length ws = (len + ps - 1) div ps
          \<and> unat (fst (page_plan cfg (size_v v))) = (len + ps - 1) div ps
          \<and> unat (snd (page_plan cfg (size_v v))) = (if len mod ps \<noteq> 0 then len mod ps else ps)
          \<and> sum_list (map (\<lambda>(dst, src, n). unat n) ws) = len
          \<and> sorted_wrt (<) (map (\<lambda>(dst, src, n). dst) ws)
          \<and> sorted_wrt (<) (map (\<lambda>(dst, src, n). src) ws)"
proof -
  let ?ps = "unat (PAGESIZE cfg)"
  from assms(1) have ps: "0 < ?ps" by (simp add: word_less_nat_alt)
  have ps_lt: "?ps < 2 ^ 24"
    using unsigned_less [of "PAGESIZE cfg", where 'a = nat] by simp
  obtain pagemax lastpagebytes where plan: "page_plan cfg (size_v v) = (pagemax, lastpagebytes)"
    by (cases "page_plan cfg (size_v v)")
  note pass_copies [OF assms(1,2)]
    page_plan_unat [OF assms(1) plan]
    spec_page_writes_sum [OF ps ps_lt, of "unat (size_v v)" "addressto v" "addressfrom v"]
    spec_page_writes_sorted [OF ps assms(3,4)]
  then show ?thesis
    by (simp add: Let_def plan spec_page_writes_def)
qed

text \<open>A candidate of three bytes on the small device: a full page and a page of one byte.\<close>

theorem page_writes_follow_plan_witness:
  "\<exists>r. pass demo_cfg (demo_env [1, 2, 3]) firmware
          \<lparr>crcexpected = 2019, crcbackup = 0, size_v = 3, addressto = 0, addressfrom = 16\<rparr>
          (demo_machine []) = Some r
     \<and> copies (trace (machine_of r)) = [(0, 16, 2), (2, 18, 1)]"
proof -
  let ?v = "\<lparr>crcexpected = 2019, crcbackup = 0, size_v = 3, addressto = 0, addressfrom = 16\<rparr>"
  have "responsive (demo_env [1, 2, 3])"
    by (simp add: responsive_def demo_env_def)
  from pass_total [OF this] obtain r where
    r: "pass demo_cfg (demo_env [1, 2, 3]) firmware ?v (demo_machine []) = Some r"
    by blast
  have ps: "0 < PAGESIZE demo_cfg" by (simp add: demo_cfg_def)
  from page_writes_follow_plan [OF ps r]
  have "copies (trace (machine_of r)) = [(0, 16, 2), (2, 18, 1)]"
    by (simp add: Let_def demo_cfg_def demo_machine_def spec_page_writes_def upt_rec)
  with r show ?thesis by blast
qed

section \<open>Memory outside the written range\<close>

lemma poke_other: "a \<noteq> x \<Longrightarrow> mem (poke cfg env x b m) a = mem m a"
  by (simp add: poke_def)

lemma copy_bytes_outside:
  "n \<le> unat (a - dst) \<Longrightarrow> mem (copy_bytes cfg env dst src n m) a = mem m a"
proof (induction n arbitrary: dst src m)
  case 0
  show ?case by simp
next
  case (Suc n)
  from Suc.prems have "unat (a - dst) \<noteq> 0" by simp
  then have nz: "a - dst \<noteq> 0" by auto
  then have ne: "a \<noteq> dst" by auto
  from nz have "unat (a - dst - 1) = unat (a - dst) - 1"
    by (rule unat_minus_one)
  then have "unat (a - (dst + 1)) = unat (a - dst) - 1"
    by (simp add: diff_diff_eq)
  with Suc.prems have le: "n \<le> unat (a - (dst + 1))" by simp
  have "mem (copy_bytes cfg env (dst + 1) (src + 1) n (poke cfg env dst (mem m src) m)) a =
        mem (poke cfg env dst (mem m src) m) a"
    using le by (rule Suc.IH)
  also have "\<dots> = mem m a"
    using ne by (rule poke_other)
  finally show ?case by simp
qed

lemma fastmemcpy_outside:
  "unat len \<le> unat (a - dst) \<Longrightarrow> mem (fastmemcpy cfg env dst src len m) a = mem m a"
  by (simp add: fastmemcpy_def copy_bytes_outside)

lemma write_pages_outside:
  assumes "write_pages cfg env pagemax lastpagebytes counter ato afrom m = (ato', afrom', m')"
    and "lastpagebytes \<le> PAGESIZE cfg"
    and "counter < pagemax \<Longrightarrow>
           (unat pagemax - Suc (unat counter)) * unat (PAGESIZE cfg) + unat lastpagebytes
             \<le> unat (a - ato)"
  shows "mem m' a = mem m a"
  using assms
proof (induction cfg env pagemax lastpagebytes counter ato afrom m rule: write_pages.induct)
  case (1 cfg env pagemax lastpagebytes counter ato afrom m)
  show ?case
  proof (cases "counter < pagemax")
    case False
    with "1.prems"(1) show ?thesis
      by (simp add: write_pages.simps [of cfg env pagemax lastpagebytes counter])
  next
    case True
    let ?p = "unat (PAGESIZE cfg)"
    let ?k = "unat pagemax - Suc (unat counter)"
    from "1.prems"(3) [OF True] have cover: "?k * ?p + unat lastpagebytes \<le> unat (a - ato)" .
    from "1.prems"(2) have lp: "unat lastpagebytes \<le> ?p"
      by (simp add: word_le_nat_alt)
    have suc: "unat (counter + 1) = Suc (unat counter)"
      using True by (rule word_succ_unat)
    from True have lt: "unat counter < unat pagemax"
      by (simp add: word_less_nat_alt)
    have "counter = pagemax - 1 \<longleftrightarrow> Suc (unat counter) = unat pagemax"
      using True by unat_arith
    with lt have last: "counter = pagemax - 1 \<longleftrightarrow> ?k = 0"
      by linarith
    define m1 where "m1 = (if counter = pagemax - 1
              then fastmemcpy cfg env ato afrom lastpagebytes
                     (printf ''Writing flash page %03d/%03d''
                        [Num (unat (counter + 1)), Num (unat pagemax)] m)
              else fastmemcpy cfg env ato afrom (PAGESIZE cfg)
                     (printf ''Writing flash page %03d/%03d''
                        [Num (unat (counter + 1)), Num (unat pagemax)] m))"
    from True "1.prems"(1) have rec: "write_pages cfg env pagemax lastpagebytes (counter + 1)
             (ato + PAGESIZE cfg) (afrom + PAGESIZE cfg) m1 = (ato', afrom', m')"
      unfolding m1_def by (subst (asm) write_pages.simps) simp
    have m1: "mem m1 a = mem m a"
    proof (cases "?k = 0")
      case True
      with cover last show ?thesis
        by (simp add: m1_def fastmemcpy_outside)
    next
      case False
      then obtain j where "?k = Suc j" by (cases ?k) auto
      then have "?p \<le> ?k * ?p" by simp
      with cover have "?p \<le> unat (a - ato)" by linarith
      with False last show ?thesis
        by (simp add: m1_def fastmemcpy_outside)
    qed
    have next_cover: "(unat pagemax - Suc (unat (counter + 1))) * ?p + unat lastpagebytes
        \<le> unat (a - (ato + PAGESIZE cfg))" if "counter + 1 < pagemax"
    proof -
      from that have k: "?k = Suc (unat pagemax - Suc (unat (counter + 1)))"
        using suc by (simp add: word_less_nat_alt)
      then have "?p \<le> ?k * ?p" by simp
      with cover have ge: "?p \<le> unat (a - ato)" by linarith
      then have "PAGESIZE cfg \<le> a - ato" by (simp add: word_le_nat_alt)
      then have "unat (a - ato - PAGESIZE cfg) = unat (a - ato) - ?p"
        by (rule unat_sub)
      then have eq: "unat (a - (ato + PAGESIZE cfg)) = unat (a - ato) - ?p"
        by (simp add: diff_diff_eq)
      from k cover
      have "(unat pagemax - Suc (unat (counter + 1))) * ?p + ?p + unat lastpagebytes \<le> unat (a - ato)"
        by (simp add: add.commute)
      with eq show ?thesis by linarith
    qed
    have "mem m' a = mem m1 a"
      unfolding m1_def
      by (rule "1.IH" [OF True rec [unfolded m1_def] "1.prems"(2) next_cover])
    with m1 show ?thesis by simp
  qed
qed

lemma page_plan_cover:
  assumes "0 < PAGESIZE cfg" and "page_plan cfg sz = (pagemax, lastpagebytes)"
  shows "lastpagebytes \<le> PAGESIZE cfg"
    and "0 < pagemax \<Longrightarrow> (unat pagemax - 1) * unat (PAGESIZE cfg) + unat lastpagebytes = unat sz"
proof -
  let ?p = "unat (PAGESIZE cfg)"
  from assms(1) have p: "0 < ?p" by (simp add: word_less_nat_alt)
  note plan = page_plan_unat [OF assms]
  note ceil = ceil_div [OF p, of "unat sz"]
  from plan(2) p show "lastpagebytes \<le> PAGESIZE cfg"
    by (simp add: word_le_nat_alt less_imp_le)
  show "(unat pagemax - 1) * ?p + unat lastpagebytes = unat sz" if "0 < pagemax"
  proof (cases "unat sz mod ?p \<noteq> 0")
    case True
    with plan ceil have "unat pagemax = Suc (unat sz div ?p)" "unat lastpagebytes = unat sz mod ?p"
      by simp_all
    then show ?thesis by simp
  next
    case False
    with plan ceil have pm: "unat pagemax = unat sz div ?p" and "unat lastpagebytes = ?p"
      by simp_all
    from that have "0 < unat pagemax" by (simp add: word_less_nat_alt)
    then obtain j where j: "unat pagemax = Suc j" by (cases "unat pagemax") auto
    have "(Suc j - 1) * ?p + ?p = Suc j * ?p" by simp
    with j pm \<open>unat lastpagebytes = ?p\<close>
    have "(unat pagemax - 1) * ?p + unat lastpagebytes = unat sz div ?p * ?p"
      by metis
    with False show ?thesis
      by (metis div_mult_mod_eq add.right_neutral)
  qed
qed

section \<open>What the erase loop leaves in the flash\<close>

lemma erase_step_mem:
  assumes "flash_prot m = 0"
  shows "mem (reg_write cfg FLASH_PGCTL 0x02 (reg_write cfg FLASH_PAGE p m)) =
           erase_page cfg p (mem m)"
    and "flash_prot (reg_write cfg FLASH_PGCTL 0x02 (reg_write cfg FLASH_PAGE p m)) = 0"
  using assms by (simp_all add: reg_write_def)

lemma erase_pages_mem:
  assumes "erase_pages cfg env counter m = Some m'" and "flash_prot m = 0"
  shows "mem m' a =
           (if \<exists>k. unat counter \<le> k \<and> k < unat (FLASHPAGES cfg) \<and>
                   a - (FLASHSTART cfg + ucast (ucast (of_nat k :: UINT24) :: UINT8) * PAGESIZE cfg)
                     < PAGESIZE cfg
            then ERASED else mem m a)
         \<and> flash_prot m' = 0"
  using assms
proof (induction cfg env counter m rule: erase_pages.induct)
  case (1 cfg env counter m)
  let ?hit = "\<lambda>k. a - (FLASHSTART cfg + ucast (ucast (of_nat k :: UINT24) :: UINT8) * PAGESIZE cfg)
                     < PAGESIZE cfg"
  show ?case
  proof (cases "counter < FLASHPAGES cfg")
    case False
    then have "\<not> (\<exists>k. unat counter \<le> k \<and> k < unat (FLASHPAGES cfg) \<and> ?hit k)"
      by (auto simp: word_less_nat_alt)
    moreover from False "1.prems"(1) have "m' = m"
      by (simp add: erase_pages.simps [of cfg env counter])
    ultimately show ?thesis
      using "1.prems"(2) by auto
  next
    case True
    define m1 where "m1 = reg_write cfg FLASH_PGCTL 0x02 (reg_write cfg FLASH_PAGE (ucast counter) m)"
    from True "1.prems"(1) obtain m2 where w: "wait_erase env m1 = Some m2"
      and rec: "erase_pages cfg env (counter + 1) m2 = Some m'"
      unfolding m1_def by (subst (asm) erase_pages.simps) (auto split: option.splits)
    from erase_step_mem [OF "1.prems"(2)] wait_erase_fields [OF w]
    have m2: "mem m2 = erase_page cfg (ucast counter) (mem m)" and p2: "flash_prot m2 = 0"
      by (simp_all add: m1_def)
    have suc: "unat (counter + 1) = Suc (unat counter)"
      using True by (rule word_succ_unat)
    from True have lt: "unat counter < unat (FLASHPAGES cfg)"
      by (simp add: word_less_nat_alt)
    define A where "A \<longleftrightarrow> ?hit (unat counter)"
    define B where "B \<longleftrightarrow> (\<exists>k. Suc (unat counter) \<le> k \<and> k < unat (FLASHPAGES cfg) \<and> ?hit k)"
    define C where "C \<longleftrightarrow> (\<exists>k. unat counter \<le> k \<and> k < unat (FLASHPAGES cfg) \<and> ?hit k)"
    have here: "mem m2 a = (if A then ERASED else mem m a)"
      unfolding A_def by (simp add: m2 erase_page_def)
    have split: "C \<longleftrightarrow> A \<or> B"
      unfolding A_def B_def C_def
      using lt by (metis Suc_leI le_eq_less_or_eq Suc_le_lessD order_refl)
    from "1.IH" [OF True w [unfolded m1_def] rec p2]
    have ih: "mem m' a = (if B then ERASED else mem m2 a)" and prot: "flash_prot m' = 0"
      unfolding B_def suc by blast+
    from split here ih have "mem m' a = (if C then ERASED else mem m a)"
      by auto
    then show ?thesis
      unfolding C_def using prot by (rule conjI)
  qed
qed

lemma page_index_cast:
  assumes "k < 256"
  shows "(ucast (ucast (of_nat k :: UINT24) :: UINT8) :: UINT24) = of_nat k"
proof -
  have 1: "unat (of_nat k :: UINT24) = k"
    using assms by (simp add: unat_of_nat)
  have "unat (ucast (of_nat k :: UINT24) :: UINT8) = take_bit LENGTH(8) (unat (of_nat k :: UINT24))"
    by (rule unsigned_ucast_eq)
  also have "\<dots> = take_bit LENGTH(8) k"
    by (simp only: 1)
  also have "\<dots> = k"
    using assms by (simp add: take_bit_eq_mod)
  finally have 2: "unat (ucast (of_nat k :: UINT24) :: UINT8) = k" .
  have "unat (ucast (ucast (of_nat k :: UINT24) :: UINT8) :: UINT24) =
        take_bit LENGTH(24) (unat (ucast (of_nat k :: UINT24) :: UINT8))"
    by (rule unsigned_ucast_eq)
  also have "\<dots> = take_bit LENGTH(24) k"
    by (simp only: 2)
  also have "\<dots> = k"
    using assms by (simp add: take_bit_eq_mod)
  finally have 3: "unat (ucast (ucast (of_nat k :: UINT24) :: UINT8) :: UINT24) = k" .
  show ?thesis
    by (rule word_unat_eq_iff [THEN iffD2]) (simp only: 1 3)
qed

lemma flash_byte_in_page:
  assumes "geometry_ok cfg" and "in_flash cfg a"
  shows "\<exists>k. k < unat (FLASHPAGES cfg) \<and>
           a - (FLASHSTART cfg + ucast (ucast (of_nat k :: UINT24) :: UINT8) * PAGESIZE cfg)
             < PAGESIZE cfg"
proof -
  let ?p = "unat (PAGESIZE cfg)"
  let ?x = "a - FLASHSTART cfg"
  define k where "k = unat ?x div ?p"
  from assms(1) have p: "0 < ?p" and pages: "unat (FLASHPAGES cfg) \<le> 256"
    and total: "unat (FLASHPAGES cfg) * ?p = unat (FLASHSIZE cfg)"
    by (simp_all add: geometry_ok_def word_less_nat_alt)
  from assms(2) have x: "unat ?x < unat (FLASHPAGES cfg) * ?p"
    by (simp add: in_flash_def word_less_nat_alt total)
  then have k: "k < unat (FLASHPAGES cfg)"
    unfolding k_def by (simp add: less_mult_imp_div_less)
  with pages have cast: "(ucast (ucast (of_nat k :: UINT24) :: UINT8) :: UINT24) = of_nat k"
    by (intro page_index_cast) simp
  have le: "k * ?p \<le> unat ?x"
    unfolding k_def by simp
  have "unat ?x < 2 ^ 24"
    using unsigned_less [of ?x, where 'a = nat] by simp
  with le have small: "k * ?p < 2 ^ 24" by linarith
  have "unat (of_nat k * PAGESIZE cfg :: UINT24) = unat (of_nat (k * ?p) :: UINT24)"
    by simp
  also have "\<dots> = k * ?p"
    using small by (simp add: unat_of_nat del: of_nat_mult)
  finally have y: "unat (of_nat k * PAGESIZE cfg :: UINT24) = k * ?p" .
  with le have "of_nat k * PAGESIZE cfg \<le> ?x"
    by (simp add: word_le_nat_alt)
  then have "unat (?x - of_nat k * PAGESIZE cfg) = unat ?x - k * ?p"
    using y by (simp add: unat_sub)
  also have "\<dots> = unat ?x mod ?p"
    unfolding k_def by (simp add: minus_div_mult_eq_mod)
  also have "\<dots> < ?p"
    using p by simp
  finally have "?x - of_nat k * PAGESIZE cfg < PAGESIZE cfg"
    by (simp add: word_less_nat_alt)
  moreover have "a - (FLASHSTART cfg + of_nat k * PAGESIZE cfg) = ?x - of_nat k * PAGESIZE cfg"
    by (simp add: diff_diff_eq)
  ultimately have "a - (FLASHSTART cfg + ucast (ucast (of_nat k :: UINT24) :: UINT8) * PAGESIZE cfg)
      < PAGESIZE cfg"
    by (simp only: cast)
  with k show ?thesis by blast
qed

lemma erase_pages_all:
  assumes "geometry_ok cfg" and "erase_pages cfg env 0 m = Some m'" and "flash_prot m = 0"
    and "in_flash cfg a"
  shows "mem m' a = ERASED"
proof -
  from flash_byte_in_page [OF assms(1,4)] erase_pages_mem [OF assms(2,3), of a]
  show ?thesis by auto
qed

section \<open>The events of the page-write loop\<close>

lemma write_pages_events:
  "write_pages cfg env pagemax lastpagebytes counter ato afrom m = (ato', afrom', m') \<Longrightarrow>
   trace m' = trace m @
     concat (map (\<lambda>i. [Printf ''Writing flash page %03d/%03d''
                           [Num (Suc (unat counter + i)), Num (unat pagemax)],
                         Fastmemcpy (ato + of_nat i * PAGESIZE cfg) (afrom + of_nat i * PAGESIZE cfg)
                           (if Suc (unat counter + i) = unat pagemax then lastpagebytes
                            else PAGESIZE cfg)])
                 [0..<unat pagemax - unat counter]) \<and>
   ato' = ato + of_nat (unat pagemax - unat counter) * PAGESIZE cfg \<and>
   afrom' = afrom + of_nat (unat pagemax - unat counter) * PAGESIZE cfg"
proof (induction cfg env pagemax lastpagebytes counter ato afrom m rule: write_pages.induct)
  case (1 cfg env pagemax lastpagebytes counter ato afrom m)
  show ?case
  proof (cases "counter < pagemax")
    case False
    then have "unat pagemax - unat counter = 0" by unat_arith
    with False "1.prems" show ?thesis
      by (simp add: write_pages.simps [of cfg env pagemax lastpagebytes counter])
  next
    case True
    then have suc: "unat (counter + 1) = Suc (unat counter)"
      by (rule word_succ_unat)
    from True have lt: "unat counter < unat pagemax"
      by (simp add: word_less_nat_alt)
    then have upt: "[0..<unat pagemax - unat counter] = 0 # map Suc [0..<unat pagemax - Suc (unat counter)]"
      by (metis Suc_diff_Suc map_Suc_upt upt_conv_Cons zero_less_diff)
    from lt have diff: "unat pagemax - unat counter = Suc (unat pagemax - Suc (unat counter))"
      by simp
    have last: "counter = pagemax - 1 \<longleftrightarrow> Suc (unat counter) = unat pagemax"
      using True by unat_arith
    define m1 where "m1 = (if counter = pagemax - 1
              then fastmemcpy cfg env ato afrom lastpagebytes
                     (printf ''Writing flash page %03d/%03d''
                        [Num (unat (counter + 1)), Num (unat pagemax)] m)
              else fastmemcpy cfg env ato afrom (PAGESIZE cfg)
                     (printf ''Writing flash page %03d/%03d''
                        [Num (unat (counter + 1)), Num (unat pagemax)] m))"
    from True "1.prems" have rec: "write_pages cfg env pagemax lastpagebytes (counter + 1)
             (ato + PAGESIZE cfg) (afrom + PAGESIZE cfg) m1 = (ato', afrom', m')"
      unfolding m1_def by (subst (asm) write_pages.simps) simp
    have m1: "trace m1 = trace m @
        [Printf ''Writing flash page %03d/%03d'' [Num (Suc (unat counter)), Num (unat pagemax)],
         Fastmemcpy ato afrom
           (if Suc (unat counter) = unat pagemax then lastpagebytes else PAGESIZE cfg)]"
      by (simp add: m1_def last suc)
    from "1.IH" [OF True rec [unfolded m1_def]]
    have ih: "trace m' = trace m1 @
       concat (map (\<lambda>i. [Printf ''Writing flash page %03d/%03d''
                           [Num (Suc (unat (counter + 1) + i)), Num (unat pagemax)],
                         Fastmemcpy (ato + PAGESIZE cfg + of_nat i * PAGESIZE cfg)
                           (afrom + PAGESIZE cfg + of_nat i * PAGESIZE cfg)
                           (if Suc (unat (counter + 1) + i) = unat pagemax then lastpagebytes
                            else PAGESIZE cfg)])
                 [0..<unat pagemax - unat (counter + 1)])"
      and a1: "ato' = ato + PAGESIZE cfg + of_nat (unat pagemax - unat (counter + 1)) * PAGESIZE cfg"
      and a2: "afrom' = afrom + PAGESIZE cfg + of_nat (unat pagemax - unat (counter + 1)) * PAGESIZE cfg"
      unfolding m1_def by blast+
    from ih have "trace m' = trace m @
     concat (map (\<lambda>i. [Printf ''Writing flash page %03d/%03d''
                           [Num (Suc (unat counter + i)), Num (unat pagemax)],
                         Fastmemcpy (ato + of_nat i * PAGESIZE cfg) (afrom + of_nat i * PAGESIZE cfg)
                           (if Suc (unat counter + i) = unat pagemax then lastpagebytes
                            else PAGESIZE cfg)])
                 [0..<unat pagemax - unat counter])"
      unfolding suc m1 by (simp add: upt o_def distrib_right add.assoc)
    moreover from a1 a2 have
      "ato' = ato + of_nat (unat pagemax - unat counter) * PAGESIZE cfg"
      "afrom' = afrom + of_nat (unat pagemax - unat counter) * PAGESIZE cfg"
      unfolding suc diff by (simp_all add: distrib_right add.assoc)
    ultimately show ?thesis by blast
  qed
qed

section \<open>The shape of a pass\<close>

lemma pass_SomeE:
  assumes "pass cfg env state v m = Some r"
  obtains m1 pagemax lastpagebytes ato afrom m2 where
    "erase_pages cfg env 0 (unprotect cfg m) = Some m1"
    "page_plan cfg (size_v v) = (pagemax, lastpagebytes)"
    "write_pages cfg env pagemax lastpagebytes 0 (addressto v) (addressfrom v)
       (printf ''Writing new firmware...'' [] m1) = (ato, afrom, m2)"
    "r = verify cfg env state (v\<lparr>addressto := ato, addressfrom := afrom\<rparr>) m2"
  using assms by (auto simp: pass_def split: option.splits prod.splits)

lemma verify_trace:
  "state \<noteq> systemreset \<Longrightarrow>
   trace (machine_of (verify cfg env state v m)) =
     trace m @ verify_events cfg (size_v v) @ verdict_events (verify cfg env state v m)"
  by (cases state) (simp_all add: verify_def verify_events_def crc32_call_def Let_def)

lemma verify_vars:
  "verify cfg env state v m = Continue state' v' m' \<Longrightarrow>
   v' = v\<lparr>crcexpected := (if state = recover then crcbackup v else crcexpected v)\<rparr>"
  by (cases state) (auto simp: verify_def crc32_call_def Let_def split: if_splits)

lemma pass_shape:
  assumes "pass cfg env state v m = Some r" and "state \<noteq> systemreset"
  shows "trace (machine_of r) =
           trace m @ erase_events cfg @
           write_events cfg (size_v v) (addressto v) (addressfrom v) @
           verify_events cfg (size_v v) @ verdict_events r"
proof -
  from assms(1) obtain m1 pagemax lastpagebytes ato afrom m2 where
    e: "erase_pages cfg env 0 (unprotect cfg m) = Some m1"
    and p: "page_plan cfg (size_v v) = (pagemax, lastpagebytes)"
    and w: "write_pages cfg env pagemax lastpagebytes 0 (addressto v) (addressfrom v)
              (printf ''Writing new firmware...'' [] m1) = (ato, afrom, m2)"
    and r: "r = verify cfg env state (v\<lparr>addressto := ato, addressfrom := afrom\<rparr>) m2"
    by (rule pass_SomeE)
  from erase_pages_trace [OF e] have t1: "trace m1 = trace m @ erase_events cfg"
    by (simp add: erase_events_def)
  from write_pages_events [OF w]
  have t2: "trace m2 = trace m1 @ write_events cfg (size_v v) (addressto v) (addressfrom v)"
    by (simp add: write_events_def p)
  from verify_trace [OF assms(2), of cfg env "v\<lparr>addressto := ato, addressfrom := afrom\<rparr>" m2]
  show ?thesis
    by (simp add: r t1 t2)
qed

lemma pass_vars:
  assumes "pass cfg env state v m = Some (Continue state' v' m')"
  shows "v' = v\<lparr>addressto := addressto v + fst (page_plan cfg (size_v v)) * PAGESIZE cfg,
               addressfrom := addressfrom v + fst (page_plan cfg (size_v v)) * PAGESIZE cfg,
               crcexpected := (if state = recover then crcbackup v else crcexpected v)\<rparr>"
proof -
  from assms obtain m1 pagemax lastpagebytes ato afrom m2 where
    p: "page_plan cfg (size_v v) = (pagemax, lastpagebytes)"
    and w: "write_pages cfg env pagemax lastpagebytes 0 (addressto v) (addressfrom v)
              (printf ''Writing new firmware...'' [] m1) = (ato, afrom, m2)"
    and r: "Continue state' v' m' = verify cfg env state (v\<lparr>addressto := ato, addressfrom := afrom\<rparr>) m2"
    by (rule pass_SomeE)
  from write_pages_events [OF w]
  have "ato = addressto v + pagemax * PAGESIZE cfg" "afrom = addressfrom v + pagemax * PAGESIZE cfg"
    by simp_all
  with verify_vars [OF r [symmetric]] p show ?thesis
    by simp
qed

lemma pass_erased_outside:
  assumes "geometry_ok cfg" and "pass cfg env state v m = Some r"
    and "in_flash cfg a" and "unat (size_v v) \<le> unat (a - addressto v)"
  shows "mem (machine_of r) a = ERASED"
proof -
  from assms(1) have ps: "0 < PAGESIZE cfg" by (simp add: geometry_ok_def)
  from assms(2) obtain m1 pagemax lastpagebytes ato afrom m2 where
    e: "erase_pages cfg env 0 (unprotect cfg m) = Some m1"
    and p: "page_plan cfg (size_v v) = (pagemax, lastpagebytes)"
    and w: "write_pages cfg env pagemax lastpagebytes 0 (addressto v) (addressfrom v)
              (printf ''Writing new firmware...'' [] m1) = (ato, afrom, m2)"
    and r: "r = verify cfg env state (v\<lparr>addressto := ato, addressfrom := afrom\<rparr>) m2"
    by (rule pass_SomeE)
  have "mem m1 a = ERASED"
    by (rule erase_pages_all [OF assms(1) e _ assms(3)]) simp
  moreover have "mem m2 a = mem (printf ''Writing new firmware...'' [] m1) a"
  proof (rule write_pages_outside [OF w page_plan_cover(1) [OF ps p]])
    assume "0 < pagemax"
    from page_plan_cover(2) [OF ps p this] assms(4)
    show "(unat pagemax - Suc (unat (0 :: UINT24))) * unat (PAGESIZE cfg) + unat lastpagebytes
            \<le> unat (a - addressto v)"
      by simp
  qed
  ultimately show ?thesis
    by (simp add: r)
qed

section \<open>The erase covers the whole flash\<close>

subsection \<open>Running the model on concrete inputs\<close>

lemma copy_bytes_numeral:
  "copy_bytes cfg env dst src (numeral k) m =
     copy_bytes cfg env (dst + 1) (src + 1) (pred_numeral k) (poke cfg env dst (mem m src) m)"
  by (simp add: numeral_eq_Suc)

lemma peek_0: "peek m a 0 = []"
  by (simp add: peek_def)

lemma peek_Suc: "peek m a (Suc n) = mem m a # peek m (a + 1) n"
proof -
  have "[0..<Suc n] = 0 # [Suc 0..<Suc n]"
    by (rule upt_conv_Cons) simp
  also have "[Suc 0..<Suc n] = map Suc [0..<n]"
    by (rule map_Suc_upt [symmetric])
  finally have "[0..<Suc n] = 0 # map Suc [0..<n]" .
  then show ?thesis
    by (simp add: peek_def o_def add.assoc)
qed

lemma peek_numeral: "peek m a (numeral k) = mem m a # peek m (a + 1) (pred_numeral k)"
  by (simp add: numeral_eq_Suc peek_Suc)

lemmas run_defs =
  demo_cfg_def demo_env_def demo_machine_def staged_machine_def flaky_env_def sum32_def
  main_def staging_def gate_def programming_def capture_backup_def step_def pass_def verify_def
  unprotect_def reg_write_def erase_page_def enableFlashKeyRegister_def lockFlashKeyRegister_def
  page_plan_def fastmemcpy_def crc32_call_def poke_def in_flash_def
  mos_fopen_def mos_fread_def mos_fclose_def getch_def reset_sequence_def putch_def
  emit_def ERASED_def Let_def
  load.simps confirm.simps erase_pages.simps write_pages.simps countdown.simps run.simps
  wait_erase.simps uart_wait.simps copy_bytes_numeral peek_0 peek_Suc peek_numeral

text \<open>
  Claim C9. Every pass, in \<open>firmware\<close> and in \<open>recover\<close> alike, begins by unprotecting the
  flash and erasing each of its \<open>FLASHPAGES\<close> pages, whatever the length of the image. So
  after a candidate pass that verifies, every flash byte at an offset from the length of the
  image up to the size of the flash holds the erased value \<open>0xFF\<close>, not what it held before.
\<close>

theorem erase_covers_whole_flash:
  assumes "geometry_ok cfg"
  shows "(state \<noteq> systemreset \<and> step cfg env state v m = Some r \<longrightarrow>
            (\<exists>evs. trace (machine_of r) = trace m @ erase_events cfg @ evs))
       \<and> (step cfg env firmware v m = Some (Continue systemreset v' m') \<and>
          addressto v = FLASHSTART cfg \<longrightarrow>
            (\<forall>off. size_v v \<le> off \<and> off < FLASHSIZE cfg \<longrightarrow>
                   mem m' (FLASHSTART cfg + off) = ERASED))"
proof (intro conjI impI allI)
  assume "state \<noteq> systemreset \<and> step cfg env state v m = Some r"
  then obtain w where "pass cfg env state w m = Some r" and "state \<noteq> systemreset"
    by (cases state) (auto simp: step_def)
  from pass_shape [OF this] show "\<exists>evs. trace (machine_of r) = trace m @ erase_events cfg @ evs"
    by simp
next
  fix off
  assume run: "step cfg env firmware v m = Some (Continue systemreset v' m') \<and>
      addressto v = FLASHSTART cfg"
    and off: "size_v v \<le> off \<and> off < FLASHSIZE cfg"
  let ?w = "v\<lparr>addressfrom := BUFFER1 cfg\<rparr>"
  from run have p: "pass cfg env firmware ?w m = Some (Continue systemreset v' m')"
    by (simp add: step_def)
  from off have "in_flash cfg (FLASHSTART cfg + off)"
    by (simp add: in_flash_def)
  moreover from run off have "unat (size_v ?w) \<le> unat (FLASHSTART cfg + off - addressto ?w)"
    by (simp add: word_le_nat_alt)
  ultimately have "mem (machine_of (Continue systemreset v' m')) (FLASHSTART cfg + off) = ERASED"
    by (rule pass_erased_outside [OF assms p])
  then show "mem m' (FLASHSTART cfg + off) = ERASED"
    by simp
qed

text \<open>
  The small device, whose flash holds \<open>0x10 .. 0x17\<close>, after the candidate \<open>[1, 2, 3]\<close> has
  been written and verified: the five bytes behind the image are erased.
\<close>

theorem erase_covers_whole_flash_witness:
  "geometry_ok demo_cfg \<and>
   (\<exists>v' m'. step demo_cfg (demo_env [1, 2, 3]) firmware
              \<lparr>crcexpected = 2019, crcbackup = 0, size_v = 3, addressto = 0, addressfrom = 16\<rparr>
              (staged_machine []) = Some (Continue systemreset v' m') \<and>
            map (mem m') [0, 1, 2, 3, 4, 5, 6, 7] = [1, 2, 3, 0xFF, 0xFF, 0xFF, 0xFF, 0xFF])"
proof -
  let ?v = "\<lparr>crcexpected = 2019, crcbackup = 0, size_v = 3, addressto = 0, addressfrom = 16\<rparr>"
  have g: "geometry_ok demo_cfg"
    by (simp add: geometry_ok_def demo_cfg_def)
  have "\<exists>v' m'. step demo_cfg (demo_env [1, 2, 3]) firmware ?v (staged_machine []) =
                  Some (Continue systemreset v' m') \<and> map (mem m') [0, 1, 2] = [1, 2, 3]"
    by (simp add: run_defs cong: prod.case_cong_weak)
  then obtain v' where "\<exists>m'. step demo_cfg (demo_env [1, 2, 3]) firmware ?v (staged_machine []) =
                  Some (Continue systemreset v' m') \<and> map (mem m') [0, 1, 2] = [1, 2, 3]" ..
  then obtain m' where "step demo_cfg (demo_env [1, 2, 3]) firmware ?v (staged_machine []) =
                  Some (Continue systemreset v' m') \<and> map (mem m') [0, 1, 2] = [1, 2, 3]" ..
  then have
    s: "step demo_cfg (demo_env [1, 2, 3]) firmware ?v (staged_machine []) =
          Some (Continue systemreset v' m')"
    and low: "map (mem m') [0, 1, 2] = [1, 2, 3]"
    by (rule conjunct1, rule conjunct2)
  from erase_covers_whole_flash [OF g, of firmware "demo_env [1, 2, 3]" ?v "staged_machine []"
      "Continue systemreset v' m'" v' m'] s
  have "\<forall>off. 3 \<le> off \<and> off < 8 \<longrightarrow> mem m' (0 + off) = ERASED"
    by (simp add: demo_cfg_def)
  then have "mem m' 3 = ERASED" "mem m' 4 = ERASED" "mem m' 5 = ERASED" "mem m' 6 = ERASED"
    "mem m' 7 = ERASED"
    by simp_all
  with low have "map (mem m') [0, 1, 2, 3, 4, 5, 6, 7] = [1, 2, 3, 0xFF, 0xFF, 0xFF, 0xFF, 0xFF]"
    by (simp add: ERASED_def)
  with s have "\<exists>v' m'. step demo_cfg (demo_env [1, 2, 3]) firmware ?v (staged_machine []) =
        Some (Continue systemreset v' m') \<and>
      map (mem m') [0, 1, 2, 3, 4, 5, 6, 7] = [1, 2, 3, 0xFF, 0xFF, 0xFF, 0xFF, 0xFF]"
    by (intro exI conjI)
  with g show ?thesis by (rule conjI)
qed

section \<open>The verdict of a pass and the reset\<close>

lemma countdown_5:
  "countdown 5 m =
     m\<lparr>trace := trace m @
        [Printf ''Reset in %ds'' [Num 5], Delayms 1000, Printf ''Reset in %ds'' [Num 4], Delayms 1000,
         Printf ''Reset in %ds'' [Num 3], Delayms 1000, Printf ''Reset in %ds'' [Num 2], Delayms 1000,
         Printf ''Reset in %ds'' [Num 1], Delayms 1000]\<rparr>"
  by (simp add: countdown.simps emit_def)

lemma reset_sequence_Some:
  assumes "reset_sequence env m = Some m'"
  shows "trace m' = trace m @ reset_events" and "mem m' = mem m"
proof -
  from assms obtain m1 where u: "uart_wait env (countdown 5 (printf [] [] m)) = Some m1"
    and m': "m' = emit Reset (delayms 500 (emit (Putch 12) m1))"
    by (auto simp: reset_sequence_def putch_def split: option.splits)
  from uart_wait_fields [OF u] show "trace m' = trace m @ reset_events" and "mem m' = mem m"
    by (simp_all add: m' countdown_5 reset_events_def)
qed

lemma reset_sequence_total:
  assumes "responsive env"
  shows "\<exists>m'. reset_sequence env m = Some m'"
proof -
  let ?m = "countdown 5 (printf [] [] m)"
  from assms obtain d where "uart_lsr env (clock ?m + d) AND 0x40 \<noteq> 0"
    unfolding responsive_def by blast
  from uart_wait_ready [OF this] obtain m1 where "uart_wait env ?m = Some m1"
    by blast
  then show ?thesis
    by (simp add: reset_sequence_def putch_def)
qed

lemma peek_cong: "mem m = mem m' \<Longrightarrow> peek m a n = peek m' a n"
  by (simp add: peek_def)

lemma verify_mem: "mem (machine_of (verify cfg env state v m)) = mem m"
  by (cases state) (simp_all add: verify_def crc32_call_def Let_def)

lemma verify_cases:
  "verify cfg env state v m =
     (let target = (if state = recover then crcbackup v else crcexpected v);
          v' = v\<lparr>crcexpected := target\<rparr>;
          m' = (lockFlashKeyRegister m)\<lparr>trace := trace m @ verify_events cfg (size_v v)\<rparr>
      in if crc32 env (peek m (FLASHSTART cfg) (unat (size_v v))) = target
         then Continue systemreset v' (printf ''- OK'' [] m')
         else (case state of
                 firmware \<Rightarrow> Continue recover v'
                   (printf ''Error occured during flash write / Attempting to flash backup firmware...'' [] m')
               | recover \<Rightarrow> Stop Halted
                   (printf ''Error occured during flash write / Backup recovery failed'' [] m')
               | systemreset \<Rightarrow> Continue recover v' m'))"
  by (cases state)
     (simp_all add: verify_def verify_events_def crc32_call_def Let_def peek_def emit_def
        lockFlashKeyRegister_def)

text \<open>
  What a turn of the loop in a writing state decides, read off the machine it leaves: the
  verdict is the comparison of the checksum of the flash, as it is after the pass, with the
  expected checksum of the state.
\<close>

lemma step_verdict:
  assumes "step cfg env state v m = Some r" and "state \<noteq> systemreset"
  defines "len \<equiv> (if state = recover then FLASHSIZE cfg else size_v v)"
    and "target \<equiv> (if state = recover then crcbackup v else crcexpected v)"
  shows "crc32 env (peek (machine_of r) (FLASHSTART cfg) (unat len)) = target \<Longrightarrow>
           \<exists>v' m'. r = Continue systemreset v' m'"
    and "crc32 env (peek (machine_of r) (FLASHSTART cfg) (unat len)) \<noteq> target \<Longrightarrow>
           state = firmware \<Longrightarrow> \<exists>v' m'. r = Continue recover v' m'"
    and "crc32 env (peek (machine_of r) (FLASHSTART cfg) (unat len)) \<noteq> target \<Longrightarrow>
           state = recover \<Longrightarrow> \<exists>m'. r = Stop Halted m'"
proof -
  define w where "w = (if state = recover then v\<lparr>addressfrom := BUFFER2 cfg, size_v := FLASHSIZE cfg\<rparr>
                       else v\<lparr>addressfrom := BUFFER1 cfg\<rparr>)"
  from assms(1,2) have p: "pass cfg env state w m = Some r"
    by (cases state) (simp_all add: step_def w_def)
  then obtain ato afrom m2 where
    r: "r = verify cfg env state (w\<lparr>addressto := ato, addressfrom := afrom\<rparr>) m2"
    by (rule pass_SomeE)
  have sz: "size_v (w\<lparr>addressto := ato, addressfrom := afrom\<rparr>) = len"
    and tg: "(if state = recover then crcbackup (w\<lparr>addressto := ato, addressfrom := afrom\<rparr>)
              else crcexpected (w\<lparr>addressto := ato, addressfrom := afrom\<rparr>)) = target"
    by (simp_all add: w_def len_def target_def)
  define c where "c = crc32 env (peek m2 (FLASHSTART cfg) (unat len))"
  have "peek (machine_of r) (FLASHSTART cfg) (unat len) = peek m2 (FLASHSTART cfg) (unat len)"
    unfolding r by (rule peek_cong) (rule verify_mem)
  then have pk: "crc32 env (peek (machine_of r) (FLASHSTART cfg) (unat len)) = c"
    by (simp add: c_def)
  have ok: "\<exists>v' m'. r = Continue systemreset v' m'" if "c = target"
    using that tg unfolding r verify_cases sz c_def by (simp add: Let_def)
  have fw: "\<exists>v' m'. r = Continue recover v' m'" if "c \<noteq> target" "state = firmware"
    using that tg unfolding r verify_cases sz c_def by (simp add: Let_def)
  have rc: "\<exists>m'. r = Stop Halted m'" if "c \<noteq> target" "state = recover"
    using that tg unfolding r verify_cases sz c_def by (simp add: Let_def)
  show "crc32 env (peek (machine_of r) (FLASHSTART cfg) (unat len)) = target \<Longrightarrow>
           \<exists>v' m'. r = Continue systemreset v' m'"
    unfolding pk by (rule ok)
  show "crc32 env (peek (machine_of r) (FLASHSTART cfg) (unat len)) \<noteq> target \<Longrightarrow>
           state = firmware \<Longrightarrow> \<exists>v' m'. r = Continue recover v' m'"
    unfolding pk by (rule fw)
  show "crc32 env (peek (machine_of r) (FLASHSTART cfg) (unat len)) \<noteq> target \<Longrightarrow>
           state = recover \<Longrightarrow> \<exists>m'. r = Stop Halted m'"
    unfolding pk by (rule rc)
qed

section \<open>The runs of the state machine\<close>

lemma step_writing:
  assumes "step cfg env state v m = Some r" and "state \<noteq> systemreset"
  obtains w where "pass cfg env state w m = Some r"
    and "w = (if state = recover then v\<lparr>addressfrom := BUFFER2 cfg, size_v := FLASHSIZE cfg\<rparr>
              else v\<lparr>addressfrom := BUFFER1 cfg\<rparr>)"
  using assms by (cases state) (simp_all add: step_def)

lemma step_firmware_shapes:
  assumes "step cfg env firmware v m = Some r"
  shows "(\<exists>v' m'. r = Continue systemreset v' m') \<or> (\<exists>v' m'. r = Continue recover v' m')"
  using step_verdict(1,2) [OF assms] by fastforce

lemma step_recover_shapes:
  assumes "step cfg env recover v m = Some r"
  shows "(\<exists>v' m'. r = Continue systemreset v' m') \<or> (\<exists>m'. r = Stop Halted m')"
  using step_verdict(1,3) [OF assms] by fastforce

lemma run_systemreset:
  "run cfg env systemreset v m =
     (case reset_sequence env m of None \<Rightarrow> None | Some m' \<Rightarrow> Some (SystemReset, m'))"
  by (subst run.simps) (simp add: step_def split: option.splits)

lemma run_firmware_cases:
  assumes "run cfg env firmware v m = Some (oc, mf)"
  obtains (candidate) v1 m1 where
      "step cfg env firmware v m = Some (Continue systemreset v1 m1)"
      "reset_sequence env m1 = Some mf" "oc = SystemReset"
  | (restored) v1 m1 v2 m2 where
      "step cfg env firmware v m = Some (Continue recover v1 m1)"
      "step cfg env recover v1 m1 = Some (Continue systemreset v2 m2)"
      "reset_sequence env m2 = Some mf" "oc = SystemReset"
  | (halted) v1 m1 where
      "step cfg env firmware v m = Some (Continue recover v1 m1)"
      "step cfg env recover v1 m1 = Some (Stop Halted mf)" "oc = Halted"
proof -
  from assms obtain r1 where s1: "step cfg env firmware v m = Some r1"
    by (subst (asm) run.simps) (auto split: option.splits)
  from step_firmware_shapes [OF s1] show ?thesis
  proof (elim disjE exE)
    fix v1 m1 assume r1: "r1 = Continue systemreset v1 m1"
    with assms s1 have "run cfg env systemreset v1 m1 = Some (oc, mf)"
      by (subst (asm) run.simps) simp
    then have "reset_sequence env m1 = Some mf" "oc = SystemReset"
      by (auto simp: run_systemreset split: option.splits)
    with s1 r1 show ?thesis by (intro candidate) simp_all
  next
    fix v1 m1 assume r1: "r1 = Continue recover v1 m1"
    with assms s1 have run2: "run cfg env recover v1 m1 = Some (oc, mf)"
      by (subst (asm) run.simps) simp
    then obtain r2 where s2: "step cfg env recover v1 m1 = Some r2"
      by (subst (asm) run.simps) (auto split: option.splits)
    from step_recover_shapes [OF s2] show ?thesis
    proof (elim disjE exE)
      fix v2 m2 assume r2: "r2 = Continue systemreset v2 m2"
      with run2 s2 have "run cfg env systemreset v2 m2 = Some (oc, mf)"
        by (subst (asm) run.simps) simp
      then have "reset_sequence env m2 = Some mf" "oc = SystemReset"
        by (auto simp: run_systemreset split: option.splits)
      with s1 r1 s2 r2 show ?thesis by (intro restored) simp_all
    next
      fix m2 assume r2: "r2 = Stop Halted m2"
      with run2 s2 have "oc = Halted" "mf = m2"
        by (subst (asm) run.simps, simp)+
      with s1 r1 s2 r2 show ?thesis by (intro halted) simp_all
    qed
  qed
qed

lemma step_total:
  assumes "responsive env"
  shows "\<exists>r. step cfg env state v m = Some r"
proof (cases state)
  case systemreset
  with reset_sequence_total [OF assms, of m] show ?thesis
    by (auto simp: step_def)
qed (simp_all add: step_def pass_total [OF assms])

lemma run_total:
  assumes "responsive env"
  shows "\<exists>oc mf. run cfg env firmware v m = Some (oc, mf)"
proof -
  have reset: "\<exists>oc mf. run cfg env systemreset w n = Some (oc, mf)" for w n
    using reset_sequence_total [OF assms, of n] by (auto simp: run_systemreset)
  have rec: "\<exists>oc mf. run cfg env recover w n = Some (oc, mf)" for w n
  proof -
    from step_total [OF assms] obtain r where s: "step cfg env recover w n = Some r"
      by blast
    from step_recover_shapes [OF s] reset s show ?thesis
      by (subst run.simps) auto
  qed
  from step_total [OF assms] obtain r where s: "step cfg env firmware v m = Some r"
    by blast
  from step_firmware_shapes [OF s] reset rec s show ?thesis
    by (subst run.simps) auto
qed

lemma no_reset_in_pass:
  "Reset \<notin> set (erase_events cfg @ write_events cfg sz ato afrom @ verify_events cfg sz @
                 verdict_events r)"
proof -
  have "Reset \<notin> set (verdict_events r)"
    by (cases r rule: verdict_events.cases) simp_all
  then show ?thesis
    by (auto simp: erase_events_def write_events_def verify_events_def split: prod.splits)
qed

lemma step_no_reset:
  assumes "step cfg env state v m = Some r" and "state \<noteq> systemreset"
  shows "filter (\<lambda>e. e = Reset) (trace (machine_of r)) = filter (\<lambda>e. e = Reset) (trace m)"
proof -
  from assms obtain w where "pass cfg env state w m = Some r"
    by (rule step_writing)
  from pass_shape [OF this assms(2)] obtain evs where
    "trace (machine_of r) = trace m @ evs" "Reset \<notin> set evs"
    using no_reset_in_pass by blast
  then show ?thesis
    by (auto simp: filter_empty_conv)
qed

section \<open>Reset or halt\<close>

lemma step_grows:
  assumes "step cfg env state v m = Some r" and "state \<noteq> systemreset"
  shows "\<exists>evs. trace (machine_of r) = trace m @ evs"
proof -
  from assms obtain w where "pass cfg env state w m = Some r"
    by (rule step_writing)
  from pass_shape [OF this assms(2)] show ?thesis
    by blast
qed

lemma step_not_ok:
  assumes "step cfg env state v m = Some r" and "state \<noteq> systemreset"
    and "\<not> (\<exists>v' m'. r = Continue systemreset v' m')"
  shows "crc32 env (peek (machine_of r) (FLASHSTART cfg)
           (unat (if state = recover then FLASHSIZE cfg else size_v v))) \<noteq>
         (if state = recover then crcbackup v else crcexpected v)"
  using step_verdict(1) [OF assms(1,2)] assms(3) by blast

lemma step_keeps_backup_checksum:
  assumes "step cfg env state v m = Some (Continue state' v' m')" and "state \<noteq> systemreset"
  shows "crcbackup v' = crcbackup v"
    and "crcexpected v' = (if state = recover then crcbackup v else crcexpected v)"
    and "size_v v' = (if state = recover then FLASHSIZE cfg else size_v v)"
proof -
  from assms obtain w where p: "pass cfg env state w m = Some (Continue state' v' m')"
    and w: "w = (if state = recover then v\<lparr>addressfrom := BUFFER2 cfg, size_v := FLASHSIZE cfg\<rparr>
                 else v\<lparr>addressfrom := BUFFER1 cfg\<rparr>)"
    by (rule step_writing)
  from pass_vars [OF p] w show "crcbackup v' = crcbackup v"
    and "crcexpected v' = (if state = recover then crcbackup v else crcexpected v)"
    and "size_v v' = (if state = recover then FLASHSIZE cfg else size_v v)"
    by simp_all
qed

lemma halted_iff:
  assumes "run cfg env firmware v m = Some (oc, mf)"
  shows "oc = Halted \<longleftrightarrow>
     (\<exists>v1 m1. step cfg env firmware v m = Some (Continue recover v1 m1) \<and>
        crc32 env (peek m1 (FLASHSTART cfg) (unat (size_v v))) \<noteq> crcexpected v \<and>
        step cfg env recover v1 m1 = Some (Stop Halted mf) \<and>
        crc32 env (peek mf (FLASHSTART cfg) (unat (FLASHSIZE cfg))) \<noteq> crcbackup v)"
proof
  assume "oc = Halted"
  with assms obtain v1 m1 where
    s1: "step cfg env firmware v m = Some (Continue recover v1 m1)"
    and s2: "step cfg env recover v1 m1 = Some (Stop Halted mf)"
    by (cases rule: run_firmware_cases) simp_all
  from step_not_ok [OF s1] have "crc32 env (peek m1 (FLASHSTART cfg) (unat (size_v v))) \<noteq> crcexpected v"
    by simp
  moreover from step_not_ok [OF s2]
  have "crc32 env (peek mf (FLASHSTART cfg) (unat (FLASHSIZE cfg))) \<noteq> crcbackup v1"
    by simp
  moreover from step_keeps_backup_checksum(1) [OF s1] have "crcbackup v1 = crcbackup v"
    by simp
  ultimately show "\<exists>v1 m1. step cfg env firmware v m = Some (Continue recover v1 m1) \<and>
        crc32 env (peek m1 (FLASHSTART cfg) (unat (size_v v))) \<noteq> crcexpected v \<and>
        step cfg env recover v1 m1 = Some (Stop Halted mf) \<and>
        crc32 env (peek mf (FLASHSTART cfg) (unat (FLASHSIZE cfg))) \<noteq> crcbackup v"
    using s1 s2 by auto
next
  assume "\<exists>v1 m1. step cfg env firmware v m = Some (Continue recover v1 m1) \<and>
        crc32 env (peek m1 (FLASHSTART cfg) (unat (size_v v))) \<noteq> crcexpected v \<and>
        step cfg env recover v1 m1 = Some (Stop Halted mf) \<and>
        crc32 env (peek mf (FLASHSTART cfg) (unat (FLASHSIZE cfg))) \<noteq> crcbackup v"
  then obtain v1 m1 where s1: "step cfg env firmware v m = Some (Continue recover v1 m1)"
    and s2: "step cfg env recover v1 m1 = Some (Stop Halted mf)"
    by blast
  from s2 have "run cfg env recover v1 m1 = Some (Halted, mf)"
    by (subst run.simps) simp
  with s1 have "run cfg env firmware v m = Some (Halted, mf)"
    by (subst run.simps) simp
  with assms show "oc = Halted" by simp
qed

lemma halted_no_reset:
  assumes "run cfg env firmware v m = Some (Halted, mf)"
  shows "filter (\<lambda>e. e = Reset) (trace mf) = filter (\<lambda>e. e = Reset) (trace m)"
proof -
  from assms obtain v1 m1 where
    s1: "step cfg env firmware v m = Some (Continue recover v1 m1)"
    and s2: "step cfg env recover v1 m1 = Some (Stop Halted mf)"
    by (cases rule: run_firmware_cases) simp_all
  from step_no_reset [OF s1] step_no_reset [OF s2] show ?thesis
    by simp
qed

lemma reset_is_last:
  assumes "run cfg env firmware v m = Some (SystemReset, mf)"
  shows "\<exists>evs. trace mf = trace m @ evs @ reset_events"
  using assms
proof (cases rule: run_firmware_cases)
  case (candidate v1 m1)
  from step_grows [OF candidate(1)] reset_sequence_Some(1) [OF candidate(2)] show ?thesis
    by auto
next
  case (restored v1 m1 v2 m2)
  from step_grows [OF restored(1)] step_grows [OF restored(2)]
    reset_sequence_Some(1) [OF restored(3)]
  show ?thesis by auto
qed simp

text \<open>
  Claim C2. Started in \<open>firmware\<close>, the loop of lines 120 to 220 ends, on a device that
  answers, and it ends in one of two ways only: with the call of \<open>reset()\<close>, or in the empty
  \<open>while(1)\<close> of line 215. It ends in the \<open>while(1)\<close> exactly when the candidate pass found
  the checksum of the flash different from the expected one and the backup pass that
  followed found it different from the checksum of the backup. In that case no \<open>reset()\<close> has
  been issued, and none will be: the run never returns (its outcome is not \<open>Returned\<close>).
\<close>

theorem only_reset_or_halt:
  "(responsive env \<longrightarrow> (\<exists>oc mf. run cfg env firmware v m = Some (oc, mf)))
   \<and> (\<forall>oc mf. run cfg env firmware v m = Some (oc, mf) \<longrightarrow>
        (oc = SystemReset \<or> oc = Halted)
      \<and> (oc = Halted \<longleftrightarrow>
           (\<exists>v1 m1. step cfg env firmware v m = Some (Continue recover v1 m1) \<and>
              crc32 env (peek m1 (FLASHSTART cfg) (unat (size_v v))) \<noteq> crcexpected v \<and>
              step cfg env recover v1 m1 = Some (Stop Halted mf) \<and>
              crc32 env (peek mf (FLASHSTART cfg) (unat (FLASHSIZE cfg))) \<noteq> crcbackup v))
      \<and> (oc = Halted \<longrightarrow>
           filter (\<lambda>e. e = Reset) (trace mf) = filter (\<lambda>e. e = Reset) (trace m))
      \<and> (oc = SystemReset \<longrightarrow> (\<exists>evs. trace mf = trace m @ evs @ reset_events)))"
proof (intro conjI allI impI)
  assume "responsive env"
  then show "\<exists>oc mf. run cfg env firmware v m = Some (oc, mf)"
    by (rule run_total)
next
  fix oc mf assume "run cfg env firmware v m = Some (oc, mf)"
  then show "oc = SystemReset \<or> oc = Halted"
    by (cases rule: run_firmware_cases) simp_all
next
  fix oc mf assume "run cfg env firmware v m = Some (oc, mf)"
  then show "oc = Halted \<longleftrightarrow>
           (\<exists>v1 m1. step cfg env firmware v m = Some (Continue recover v1 m1) \<and>
              crc32 env (peek m1 (FLASHSTART cfg) (unat (size_v v))) \<noteq> crcexpected v \<and>
              step cfg env recover v1 m1 = Some (Stop Halted mf) \<and>
              crc32 env (peek mf (FLASHSTART cfg) (unat (FLASHSIZE cfg))) \<noteq> crcbackup v)"
    by (rule halted_iff)
next
  fix oc mf assume "run cfg env firmware v m = Some (oc, mf)" and "oc = Halted"
  then show "filter (\<lambda>e. e = Reset) (trace mf) = filter (\<lambda>e. e = Reset) (trace m)"
    by (intro halted_no_reset) simp
next
  fix oc mf assume "run cfg env firmware v m = Some (oc, mf)" and "oc = SystemReset"
  then show "\<exists>evs. trace mf = trace m @ evs @ reset_events"
    by (intro reset_is_last) simp
qed

text \<open>
  The small device with the faulty cell: the candidate pass fails, the backup pass fails,
  the run halts without a reset.
\<close>

theorem only_reset_or_halt_witness:
  "responsive (flaky_env [1, 2, 3]) \<and>
   (\<exists>mf. run demo_cfg (flaky_env [1, 2, 3]) firmware
            \<lparr>crcexpected = 2019, crcbackup = 3216240772, size_v = 3, addressto = 0, addressfrom = 16\<rparr>
            (staged_machine []) = Some (Halted, mf) \<and>
          filter (\<lambda>e. e = Reset) (trace mf) = [])"
proof -
  let ?v = "\<lparr>crcexpected = 2019, crcbackup = 3216240772, size_v = 3, addressto = 0, addressfrom = 16\<rparr>"
  let ?run = "run demo_cfg (flaky_env [1, 2, 3]) firmware ?v (staged_machine [])"
  have resp: "responsive (flaky_env [1, 2, 3])"
    by (simp add: responsive_def flaky_env_def demo_env_def)
  have "map_option fst ?run = Some Halted"
    by (simp add: run_defs cong: prod.case_cong_weak)
  then obtain mf where run: "?run = Some (Halted, mf)"
    by (cases ?run) auto
  from only_reset_or_halt [of "flaky_env [1, 2, 3]" demo_cfg ?v "staged_machine []"] run
  have "filter (\<lambda>e. e = Reset) (trace mf) = filter (\<lambda>e. e = Reset) (trace (staged_machine []))"
    by blast
  then have "filter (\<lambda>e. e = Reset) (trace mf) = []"
    by (simp add: staged_machine_def demo_machine_def)
  with resp run show ?thesis by blast
qed

section \<open>The verification\<close>

text \<open>
  What lines 194 to 204 do in general. A turn of the loop in \<open>firmware\<close> or \<open>recover\<close>
  erases, writes the pages from \<open>addressto\<close> on, and only then computes a checksum: always
  of the flash from \<open>FLASHSTART\<close> on, over the length of the image of the state (the full
  flash size in \<open>recover\<close>), wherever the pages went. The verdict is "OK" exactly when that
  checksum, of what the flash holds after the pass, equals the expected checksum of the
  candidate (in \<open>firmware\<close>) or the checksum captured with the backup (in \<open>recover\<close>). The
  turn leaves \<open>crcbackup\<close> as it was.
\<close>

theorem verification_recomputes_checksum:
  assumes "state = firmware \<or> state = recover"
    and "step cfg env state v m = Some r"
  shows "let len = (if state = recover then FLASHSIZE cfg else size_v v);
             target = (if state = recover then crcbackup v else crcexpected v);
             src = (if state = recover then BUFFER2 cfg else BUFFER1 cfg);
             crcresult = crc32 env (peek (machine_of r) (FLASHSTART cfg) (unat len))
         in trace (machine_of r) =
              trace m @ erase_events cfg @ write_events cfg len (addressto v) src @
              verify_events cfg len @ verdict_events r
          \<and> ((\<exists>v' m'. r = Continue systemreset v' m') \<longleftrightarrow> crcresult = target)
          \<and> (\<forall>state' v' m'. r = Continue state' v' m' \<longrightarrow>
                crcbackup v' = crcbackup v \<and> crcexpected v' = target \<and> size_v v' = len)"
proof -
  from assms(1) have ns: "state \<noteq> systemreset" by auto
  define len where "len = (if state = recover then FLASHSIZE cfg else size_v v)"
  define target where "target = (if state = recover then crcbackup v else crcexpected v)"
  define src where "src = (if state = recover then BUFFER2 cfg else BUFFER1 cfg)"
  define crcresult where "crcresult = crc32 env (peek (machine_of r) (FLASHSTART cfg) (unat len))"
  from assms(2) ns obtain w where p: "pass cfg env state w m = Some r"
    and w: "w = (if state = recover then v\<lparr>addressfrom := BUFFER2 cfg, size_v := FLASHSIZE cfg\<rparr>
                 else v\<lparr>addressfrom := BUFFER1 cfg\<rparr>)"
    by (rule step_writing)
  from pass_shape [OF p ns] w
  have t: "trace (machine_of r) =
              trace m @ erase_events cfg @ write_events cfg len (addressto v) src @
              verify_events cfg len @ verdict_events r"
    by (simp add: len_def src_def)
  have ok: "(\<exists>v' m'. r = Continue systemreset v' m') \<longleftrightarrow> crcresult = target"
  proof
    assume "\<exists>v' m'. r = Continue systemreset v' m'"
    then show "crcresult = target"
      using step_verdict(2,3) [OF assms(2) ns] assms(1)
      unfolding crcresult_def len_def target_def by fastforce
  next
    assume "crcresult = target"
    then show "\<exists>v' m'. r = Continue systemreset v' m'"
      using step_verdict(1) [OF assms(2) ns]
      unfolding crcresult_def len_def target_def by simp
  qed
  have keep: "crcbackup v' = crcbackup v \<and> crcexpected v' = target \<and> size_v v' = len"
    if "r = Continue state' v' m'" for state' v' m'
    using step_keeps_backup_checksum [OF assms(2) [unfolded that] ns]
    by (simp add: target_def len_def)
  from t ok keep show ?thesis
    unfolding Let_def len_def [symmetric] target_def [symmetric] src_def [symmetric]
      crcresult_def [symmetric]
    by blast
qed

text \<open>
  On the small device with the faulty cell the flash holds \<open>[0, 2, 3]\<close> after the candidate
  pass: its checksum 1058 is not the expected 2019, and the turn does not end in "OK".
\<close>

theorem verification_recomputes_checksum_witness:
  "\<exists>r. step demo_cfg (flaky_env [1, 2, 3]) firmware
          \<lparr>crcexpected = 2019, crcbackup = 3216240772, size_v = 3, addressto = 0, addressfrom = 16\<rparr>
          (staged_machine []) = Some r
     \<and> crc32 (flaky_env [1, 2, 3]) (peek (machine_of r) 0 3) = 1058
     \<and> \<not> (\<exists>v' m'. r = Continue systemreset v' m')"
proof -
  let ?env = "flaky_env [1, 2, 3]"
  let ?v = "\<lparr>crcexpected = 2019, crcbackup = 3216240772, size_v = 3, addressto = 0, addressfrom = 16\<rparr>"
  let ?step = "step demo_cfg ?env firmware ?v (staged_machine [])"
  have "map_option (\<lambda>r. peek (machine_of r) 0 3) ?step = Some [0, 2, 3]"
    by (simp add: run_defs cong: prod.case_cong_weak)
  then obtain r where s: "?step = Some r" and pk: "peek (machine_of r) 0 3 = [0, 2, 3]"
    by (cases ?step) auto
  from pk have c: "crc32 ?env (peek (machine_of r) 0 3) = 1058"
    by (simp add: flaky_env_def demo_env_def sum32_def)
  have st: "firmware = firmware \<or> firmware = recover" by simp
  from verification_recomputes_checksum [OF st s] c
  have "\<not> (\<exists>v' m'. r = Continue systemreset v' m')"
    by (simp add: Let_def demo_cfg_def)
  with s c show ?thesis by blast
qed

text \<open>
  Claim C5, on the code. The small device with the faulty cell, the file \<open>[1, 2, 3]\<close> with
  its checksum, the operator answering \<open>y\<close>: the checksums and bulk copies of the run, in
  order. The candidate pass writes the bytes 0 to 2 of the flash and computes the checksum
  of the bytes 0 to 2, the region it has just written. The backup pass writes its four
  pages at 4, 6, 8 and 10, the bytes 4 to 11, and computes the checksum of the bytes 0 to
  7: the first four of them are bytes this pass has not written, and the last four it has
  written are not read. What the pass has just written is the backup, byte for byte, with
  the checksum captured at the start, 3216240772; the checksum that is compared,
  2321563714, is that of another region, and the run halts.
\<close>

theorem backup_checksum_misses_written_pages:
  "map_option (\<lambda>(oc, m). (oc, filter (\<lambda>e. case e of Fastmemcpy dst src len \<Rightarrow> True
                                              | Crc32 ptr len \<Rightarrow> True | _ \<Rightarrow> False) (trace m),
                            peek m 4 8, sum32 (peek m 4 8), sum32 (peek m 0 8)))
     (main demo_cfg (flaky_env [1, 2, 3]) [''FLASH'', ''fw.bin'', ''sum''] (demo_machine [0x79])) =
   Some (Halted,
         [Crc32 16 3, Fastmemcpy 24 0 8, Crc32 0 8,
          Fastmemcpy 0 16 2, Fastmemcpy 2 18 1, Crc32 0 3,
          Fastmemcpy 4 24 2, Fastmemcpy 6 26 2, Fastmemcpy 8 28 2, Fastmemcpy 10 30 2, Crc32 0 8],
         [0x10, 0x11, 0x12, 0x13, 0x14, 0x15, 0x16, 0x17], 3216240772, 2321563714)"
  by (simp add: run_defs cong: prod.case_cong_weak)

section \<open>The backup pass writes behind the candidate\<close>

text \<open>
  The two writing states run the same pass; the first switch changes \<open>addressfrom\<close> (and
  \<open>size\<close> in \<open>recover\<close>) and nothing else. \<open>addressto\<close> is set once, in line 116, before the
  loop: the backup pass goes on writing where the candidate pass stopped.
\<close>

lemma recover_pass_destination:
  assumes "step cfg env firmware v m = Some (Continue recover v1 m1)"
    and "step cfg env recover v1 m1 = Some r2"
  shows "addressto v1 = addressto v + fst (page_plan cfg (size_v v)) * PAGESIZE cfg"
    and "trace (machine_of r2) =
           trace m1 @ erase_events cfg @
           write_events cfg (FLASHSIZE cfg)
             (addressto v + fst (page_plan cfg (size_v v)) * PAGESIZE cfg) (BUFFER2 cfg) @
           verify_events cfg (FLASHSIZE cfg) @ verdict_events r2"
proof -
  from assms(1) have p1: "pass cfg env firmware (v\<lparr>addressfrom := BUFFER1 cfg\<rparr>) m =
      Some (Continue recover v1 m1)"
    by (simp add: step_def)
  from pass_vars [OF p1]
  show a: "addressto v1 = addressto v + fst (page_plan cfg (size_v v)) * PAGESIZE cfg"
    by simp
  from assms(2) have p2: "pass cfg env recover
      (v1\<lparr>addressfrom := BUFFER2 cfg, size_v := FLASHSIZE cfg\<rparr>) m1 = Some r2"
    by (simp add: step_def)
  from pass_shape [OF p2] a
  show "trace (machine_of r2) =
           trace m1 @ erase_events cfg @
           write_events cfg (FLASHSIZE cfg)
             (addressto v + fst (page_plan cfg (size_v v)) * PAGESIZE cfg) (BUFFER2 cfg) @
           verify_events cfg (FLASHSIZE cfg) @ verdict_events r2"
    by simp
qed

text \<open>
  Claim C1, on the code. The small device with the faulty cell, its flash holding
  \<open>0x10 .. 0x17\<close>; the file \<open>[1, 2, 3]\<close> with its checksum; the operator answers \<open>y\<close>. The
  backup is captured (8 bytes to address 24), the candidate is written in two pages at 0
  and 2 and fails verification. The backup pass then writes its four pages at 4, 6, 8 and
  10: not from the start of the flash, but behind the two pages of the candidate. Every
  store of the backup pass succeeds, yet the flash ends as four erased bytes followed by
  the first half of the backup, the verification fails, and the run halts instead of
  resetting. The backup buffer still holds the old firmware.
\<close>

theorem backup_written_behind_candidate:
  "map_option (\<lambda>(oc, m). (oc, copies (trace m), peek m 0 8, peek m 24 8))
     (main demo_cfg (flaky_env [1, 2, 3]) [''FLASH'', ''fw.bin'', ''sum''] (demo_machine [0x79])) =
   Some (Halted,
         [(24, 0, 8), (0, 16, 2), (2, 18, 1), (4, 24, 2), (6, 26, 2), (8, 28, 2), (10, 30, 2)],
         [0xFF, 0xFF, 0xFF, 0xFF, 0x10, 0x11, 0x12, 0x13],
         [0x10, 0x11, 0x12, 0x13, 0x14, 0x15, 0x16, 0x17])"
  by (simp add: run_defs cong: prod.case_cong_weak)

section \<open>The load loop\<close>

lemma mos_fread_fields:
  assumes "mos_fread cfg env ptr n m = (got, m1)"
  shows "got = of_nat (length (take (unat n) (file_rest m)))"
    and "file_rest m1 = drop (unat n) (file_rest m)"
    and "trace m1 = trace m @ [Fread ptr (length (take (unat n) (file_rest m)))]"
    and "flash_key m1 = flash_key m" and "flash_prot m1 = flash_prot m"
    and "flash_page m1 = flash_page m" and "keys m1 = keys m" and "clock m1 = clock m"
    and "mem m1 = mem (store_bytes cfg env ptr (take (unat n) (file_rest m)) m)"
  using assms by (auto simp: mos_fread_def Let_def)



lemma load_frame:
  assumes "load cfg env ptr sz m = (ptr', sz', m')"
  shows "filter flash_op (trace m') = filter flash_op (trace m)
       \<and> flash_key m' = flash_key m \<and> flash_prot m' = flash_prot m
       \<and> flash_page m' = flash_page m \<and> keys m' = keys m
       \<and> (\<exists>evs. trace m' = trace m @ evs)"
  using assms
proof (induction cfg env ptr sz m rule: load.induct)
  case (1 cfg env ptr sz m)
  obtain got m1 where fr: "mos_fread cfg env ptr (BLOCKSIZE cfg) m = (got, m1)"
    by (cases "mos_fread cfg env ptr (BLOCKSIZE cfg) m")
  note f = mos_fread_fields [OF fr]
  show ?case
  proof (cases "0 < got")
    case False
    with fr "1.prems" have "m' = m1"
      by (simp add: load.simps [of cfg env ptr sz m])
    with f show ?thesis by simp
  next
    case True
    let ?m2 = "printf ''File size    : %d byte(s)'' [Num (unat (sz + got))] m1"
    from True fr "1.prems" have rec: "load cfg env (ptr + got) (sz + got) ?m2 = (ptr', sz', m')"
      by (simp add: load.simps [of cfg env ptr sz m])
    from "1.IH" [OF fr [symmetric] True rec] f show ?thesis
      by auto
  qed
qed

section \<open>The pre-flight checks leave the device alone\<close>

lemma poke_protected:
  "flash_prot m \<noteq> 0 \<Longrightarrow> in_flash cfg a \<Longrightarrow> mem (poke cfg env x b m) a = mem m a"
  by (auto simp: poke_def)

lemma store_bytes_protected:
  "flash_prot m \<noteq> 0 \<Longrightarrow> in_flash cfg a \<Longrightarrow> mem (store_bytes cfg env p bs m) a = mem m a"
  by (induction bs arbitrary: p m) (simp_all add: poke_protected)

lemma load_protected:
  assumes "load cfg env ptr sz m = (ptr', sz', m')" and "flash_prot m \<noteq> 0" and "in_flash cfg a"
  shows "mem m' a = mem m a"
  using assms
proof (induction cfg env ptr sz m rule: load.induct)
  case (1 cfg env ptr sz m)
  obtain got m1 where fr: "mos_fread cfg env ptr (BLOCKSIZE cfg) m = (got, m1)"
    by (cases "mos_fread cfg env ptr (BLOCKSIZE cfg) m")
  note f = mos_fread_fields [OF fr]
  from f(9) "1.prems"(2,3) have m1: "mem m1 a = mem m a"
    by (simp add: store_bytes_protected)
  show ?case
  proof (cases "0 < got")
    case False
    with fr "1.prems"(1) have "m' = m1"
      by (simp add: load.simps [of cfg env ptr sz m])
    with m1 show ?thesis by simp
  next
    case True
    let ?m2 = "printf ''File size    : %d byte(s)'' [Num (unat (sz + got))] m1"
    from True fr "1.prems"(1) have rec: "load cfg env (ptr + got) (sz + got) ?m2 = (ptr', sz', m')"
      by (simp add: load.simps [of cfg env ptr sz m])
    have "flash_prot ?m2 \<noteq> 0"
      using f(5) "1.prems"(2) by simp
    from "1.IH" [OF fr [symmetric] True rec this "1.prems"(3)] m1 show ?thesis
      by simp
  qed
qed

lemma untouched_refl: "untouched cfg m m"
  by (simp add: untouched_def)

lemma untouched_trans: "untouched cfg m m' \<Longrightarrow> untouched cfg m' m'' \<Longrightarrow> untouched cfg m m''"
  by (simp add: untouched_def)

lemma untouched_quiet:
  assumes "\<not> flash_op e"
  shows "untouched cfg m (emit e m)"
  using assms by (simp add: untouched_def)

lemma untouched_load:
  assumes "load cfg env ptr sz m = (ptr', sz', m')"
  shows "untouched cfg m m'"
  using load_frame [OF assms] load_protected [OF assms]
  by (simp add: untouched_def)

lemma untouched_demo:
  assumes "untouched demo_cfg (demo_machine ks) mf"
  shows "filter flash_op (trace mf) = []"
    and "map (mem mf) [0, 1, 2, 3, 4, 5, 6, 7] = [0x10, 0x11, 0x12, 0x13, 0x14, 0x15, 0x16, 0x17]"
proof -
  from assms show "filter flash_op (trace mf) = []"
    by (simp add: untouched_def demo_machine_def)
  from assms have "\<forall>a. a < 8 \<longrightarrow> mem mf a = 0x10 + ucast a"
    by (simp add: untouched_def demo_machine_def demo_cfg_def in_flash_def)
  then show "map (mem mf) [0, 1, 2, 3, 4, 5, 6, 7] = [0x10, 0x11, 0x12, 0x13, 0x14, 0x15, 0x16, 0x17]"
    by simp
qed

text \<open>What \<open>staging\<close> returns, and that it leaves the device alone.\<close>

lemma staging_untouched:
  "(staging cfg env argv m0 = Inl (oc, m') \<longrightarrow> oc = Returned \<and> untouched cfg m0 m') \<and>
   (staging cfg env argv m0 = Inr (crcexp, sz, m') \<longrightarrow> untouched cfg m0 m' \<and> keys m' = keys m0)"
proof -
  let ?m1 = "printf ''Agon MOS firmware upgrade utility v1.3'' [] m0"
  obtain fh m2 where fo: "mos_fopen env (argv ! 1) ?m1 = (fh, m2)"
    by (cases "mos_fopen env (argv ! 1) ?m1")
  then have u2: "untouched cfg m0 m2" and k2: "keys m2 = keys m0"
    by (auto simp: mos_fopen_def untouched_def split: option.splits)
  let ?m2' = "printf ''File size    : %d byte(s)'' [Num 0]
                (printf ''Loading file : %s'' [Str (argv ! 1)] m2)"
  obtain ptr sz' m3 where ld: "load cfg env (BUFFER1 cfg) 0 ?m2' = (ptr, sz', m3)"
    by (cases "load cfg env (BUFFER1 cfg) 0 ?m2'")
  have "untouched cfg m2 ?m2'"
    by (simp add: untouched_def)
  with u2 untouched_load [OF ld] have u3: "untouched cfg m0 m3"
    by (blast intro: untouched_trans)
  from load_frame [OF ld] k2 have k3: "keys m3 = keys m0"
    by simp
  let ?m4 = "printf ''File size    : %d byte(s)'' [Num (unat sz')] (mos_fclose m3)"
  have "untouched cfg m3 ?m4"
    by (simp add: untouched_def mos_fclose_def)
  with u3 have u4: "untouched cfg m0 ?m4"
    by (rule untouched_trans)
  have k4: "keys ?m4 = keys m0"
    using k3 by (simp add: mos_fclose_def)
  have u5: "untouched cfg m0 (printf ''Too large for 128KB flash - aborting'' [] ?m4)"
    using u4 by (simp add: untouched_def)
  have u0: "untouched cfg m0
     (printf ''       <crc32> - 4byte HEX CRC32 checksum'' []
        (printf ''       <filename> - e.g. firmware.bin'' []
           (printf ''Usage: FLASH <filename> <crc32>'' [] ?m1)))"
    by (simp add: untouched_def)
  have u2a: "untouched cfg m0 (printf ''Error opening \"%s\"'' [Str (argv ! 1)] m2)"
    and u2b: "untouched cfg m0 (printf ''Incorrect crc32 format'' [] m2)"
    using u2 by (simp_all add: untouched_def)
  have st: "staging cfg env argv m0 =
      (if length argv \<noteq> 3
       then Inl (Returned,
              printf ''       <crc32> - 4byte HEX CRC32 checksum'' []
                (printf ''       <filename> - e.g. firmware.bin'' []
                  (printf ''Usage: FLASH <filename> <crc32>'' [] ?m1)))
       else if fh = 0
            then Inl (Returned, printf ''Error opening \"%s\"'' [Str (argv ! 1)] m2)
            else (case strtoll env (argv ! 2) of
                    (crcexp, errno) \<Rightarrow>
                      if errno \<noteq> 0
                      then Inl (Returned, printf ''Incorrect crc32 format'' [] m2)
                      else if sz' > FLASHSIZE cfg
                           then Inl (Returned,
                                  printf ''Too large for 128KB flash - aborting'' [] ?m4)
                           else Inr (crcexp, sz', ?m4)))"
    unfolding staging_def Let_def fo prod.case ld ..
  show ?thesis
    unfolding st using u0 u2a u2b u5 u4 k4
    by (cases "strtoll env (argv ! 2)") (auto split: if_splits)
qed



text \<open>The gate on a checksum that differs, and on an operator who answers \<open>'n'\<close>.\<close>

lemma gate_mismatch:
  assumes "crc32 env (peek m (BUFFER1 cfg) (unat sz)) \<noteq> crcexp"
  shows "gate cfg env crcexp sz m =
           Some (Returned,
             m\<lparr>trace := trace m @
                 [Printf ''Testing CRC32: 0x%08lx'' [Num (unat crcexp)], Crc32 (BUFFER1 cfg) sz,
                  Printf ''CRC32 result : 0x%08lx''
                    [Num (unat (crc32 env (peek m (BUFFER1 cfg) (unat sz))))],
                  Printf ''Mismatch - aborting'' []]\<rparr>)"
  using assms by (auto simp: gate_def crc32_call_def Let_def emit_def peek_def)

lemma gate_match:
  assumes "crc32 env (peek m (BUFFER1 cfg) (unat sz)) = crcexp"
    and "dropWhile other_key (keys m) = c # rest"
  defines "m3 \<equiv> m\<lparr>keys := rest,
                 trace := trace m @
                 [Printf ''Testing CRC32: 0x%08lx'' [Num (unat crcexp)], Crc32 (BUFFER1 cfg) sz,
                  Printf ''CRC32 result : 0x%08lx'' [Num (unat crcexp)],
                  Printf ''OK'' [], Printf ''Erase and program flash (y/n)? '' []] @
                 map Getch (takeWhile other_key (keys m)) @ [Getch c]\<rparr>"
  shows "gate cfg env crcexp sz m =
           (if c = 0x79 then programming cfg env crcexp sz m3
            else Some (Returned, printf ''User abort'' [] m3))"
proof -
  let ?m2 = "printf ''Erase and program flash (y/n)? '' []
               (printf ''OK'' []
                 (printf ''CRC32 result : 0x%08lx'' [Num (unat crcexp)]
                   (emit (Crc32 (BUFFER1 cfg) sz)
                     (printf ''Testing CRC32: 0x%08lx'' [Num (unat crcexp)] m))))"
  have k: "keys ?m2 = keys m" by simp
  have "other_key 0" by (simp add: other_key_def)
  from confirm_scan [OF this, of ?m2] assms(2)
  have "confirm 0 ?m2 = Some (c, m3)"
    by (simp add: k m3_def emit_def)
  moreover have "peek (printf ''Testing CRC32: 0x%08lx'' [Num (unat crcexp)] m) (BUFFER1 cfg) (unat sz) =
      peek m (BUFFER1 cfg) (unat sz)"
    by (simp add: peek_def)
  ultimately show ?thesis
    using assms(1) by (simp add: gate_def crc32_call_def Let_def)
qed







section \<open>The staged image\<close>

lemma poke_mem_cong:
  assumes "mem m = mem n" and "flash_prot m = flash_prot n"
  shows "mem (poke cfg env a b m) = mem (poke cfg env a b n)"
  using assms by (simp add: poke_def)





section \<open>Loading reads the whole file\<close>




section \<open>The backup capture\<close>

lemma run_trace:
  assumes "run cfg env firmware v m = Some (oc, mf)"
  shows "\<exists>post. trace mf = trace m @ erase_events cfg @ post"
proof -
  have first: "\<exists>evs. trace m1 = trace m @ erase_events cfg @ evs"
    if "step cfg env firmware v m = Some (Continue state' v1 m1)" for state' v1 m1
  proof -
    from that have "pass cfg env firmware (v\<lparr>addressfrom := BUFFER1 cfg\<rparr>) m =
        Some (Continue state' v1 m1)"
      by (simp add: step_def)
    from pass_shape [OF this] show ?thesis
      by simp
  qed
  from assms show ?thesis
  proof (cases rule: run_firmware_cases)
    case (candidate v1 m1)
    from first [OF candidate(1)] reset_sequence_Some(1) [OF candidate(2)] show ?thesis
      by auto
  next
    case (restored v1 m1 v2 m2)
    from step_grows [OF restored(2)] obtain evs where "trace m2 = trace m1 @ evs"
      by auto
    with first [OF restored(1)] reset_sequence_Some(1) [OF restored(3)] show ?thesis
      by auto
  next
    case (halted v1 m1)
    from step_grows [OF halted(2)] obtain evs where "trace mf = trace m1 @ evs"
      by auto
    with first [OF halted(1)] show ?thesis
      by auto
  qed
qed

lemma copy_bytes_mem_cong:
  assumes "mem m = mem n" and "flash_prot m = flash_prot n"
  shows "mem (copy_bytes cfg env dst src k m) = mem (copy_bytes cfg env dst src k n)"
  using assms
proof (induction k arbitrary: dst src m n)
  case 0
  then show ?case by simp
next
  case (Suc k)
  have "mem (copy_bytes cfg env (dst + 1) (src + 1) k (poke cfg env dst (mem m src) m)) =
        mem (copy_bytes cfg env (dst + 1) (src + 1) k (poke cfg env dst (mem m src) n))"
    by (rule Suc.IH) (simp_all add: poke_mem_cong [OF Suc.prems] Suc.prems(2))
  then show ?case by (simp add: Suc.prems(1))
qed

lemma capture_backup_fields:
  assumes "capture_backup cfg env m = (crcb, m1)"
  shows "trace m1 = trace m @ [Printf ''Backing up existing firmware... '' [],
           Fastmemcpy (BUFFER2 cfg) 0 (FLASHSIZE cfg), Crc32 0 (FLASHSIZE cfg)]"
    and "mem m1 = mem (copy_bytes cfg env (BUFFER2 cfg) 0 (unat (FLASHSIZE cfg)) m)"
    and "crcb = crc32 env (peek m1 0 (unat (FLASHSIZE cfg)))"
    and "flash_prot m1 = flash_prot m" and "flash_key m1 = flash_key m"
    and "flash_page m1 = flash_page m"
proof -
  let ?m0 = "emit (Fastmemcpy (BUFFER2 cfg) 0 (FLASHSIZE cfg))
               (printf ''Backing up existing firmware... '' [] m)"
  have c: "mem (copy_bytes cfg env (BUFFER2 cfg) 0 (unat (FLASHSIZE cfg)) ?m0) =
      mem (copy_bytes cfg env (BUFFER2 cfg) 0 (unat (FLASHSIZE cfg)) m)"
  proof -
    have "mem ?m0 = mem m" "flash_prot ?m0 = flash_prot m"
      by simp_all
    then show ?thesis
      by (rule copy_bytes_mem_cong)
  qed
  from assms have m1: "m1 = emit (Crc32 0 (FLASHSIZE cfg))
      (copy_bytes cfg env (BUFFER2 cfg) 0 (unat (FLASHSIZE cfg)) ?m0)"
    and crcb: "crcb = crc32 env (peek (copy_bytes cfg env (BUFFER2 cfg) 0 (unat (FLASHSIZE cfg)) ?m0)
      0 (unat (FLASHSIZE cfg)))"
    by (simp_all add: capture_backup_def crc32_call_def fastmemcpy_def)
  show "trace m1 = trace m @ [Printf ''Backing up existing firmware... '' [],
           Fastmemcpy (BUFFER2 cfg) 0 (FLASHSIZE cfg), Crc32 0 (FLASHSIZE cfg)]"
    by (simp add: m1)
  show "mem m1 = mem (copy_bytes cfg env (BUFFER2 cfg) 0 (unat (FLASHSIZE cfg)) m)"
    using c by (simp add: m1)
  show "crcb = crc32 env (peek m1 0 (unat (FLASHSIZE cfg)))"
    unfolding crcb by (simp add: m1 peek_def)
  show "flash_prot m1 = flash_prot m" "flash_key m1 = flash_key m" "flash_page m1 = flash_page m"
    by (simp_all add: m1)
qed



lemma staging_grows:
  assumes "staging cfg env argv m0 = Inr (crcexp, sz, m)"
  shows "\<exists>pre. trace m = trace m0 @ pre \<and> filter flash_op pre = []"
proof -
  let ?m1 = "printf ''Agon MOS firmware upgrade utility v1.3'' [] m0"
  obtain fh m2 where fo: "mos_fopen env (argv ! 1) ?m1 = (fh, m2)"
    by (cases "mos_fopen env (argv ! 1) ?m1")
  then have t2: "\<exists>evs. trace m2 = trace m0 @ evs"
    by (auto simp: mos_fopen_def split: option.splits)
  let ?m2' = "printf ''File size    : %d byte(s)'' [Num 0]
                (printf ''Loading file : %s'' [Str (argv ! 1)] m2)"
  obtain ptr sz' m3 where ld: "load cfg env (BUFFER1 cfg) 0 ?m2' = (ptr, sz', m3)"
    by (cases "load cfg env (BUFFER1 cfg) 0 ?m2'")
  from load_frame [OF ld] t2 have t3: "\<exists>evs. trace m3 = trace m0 @ evs"
    by auto
  let ?m4 = "printf ''File size    : %d byte(s)'' [Num (unat sz')] (mos_fclose m3)"
  from t3 have t4: "\<exists>evs. trace ?m4 = trace m0 @ evs"
    by (auto simp: mos_fclose_def)
  have "staging cfg env argv m0 =
      (if length argv \<noteq> 3
       then Inl (Returned,
              printf ''       <crc32> - 4byte HEX CRC32 checksum'' []
                (printf ''       <filename> - e.g. firmware.bin'' []
                  (printf ''Usage: FLASH <filename> <crc32>'' [] ?m1)))
       else if fh = 0
            then Inl (Returned, printf ''Error opening \"%s\"'' [Str (argv ! 1)] m2)
            else (case strtoll env (argv ! 2) of
                    (crcexp, errno) \<Rightarrow>
                      if errno \<noteq> 0
                      then Inl (Returned, printf ''Incorrect crc32 format'' [] m2)
                      else if sz' > FLASHSIZE cfg
                           then Inl (Returned,
                                  printf ''Too large for 128KB flash - aborting'' [] ?m4)
                           else Inr (crcexp, sz', ?m4)))"
    unfolding staging_def Let_def fo prod.case ld ..
  with assms have "m = ?m4"
    by (cases "strtoll env (argv ! 2)") (auto split: if_splits)
  with t4 obtain pre where pre: "trace m = trace m0 @ pre"
    by auto
  from staging_untouched [of cfg env argv m0 _ m crcexp sz] assms
  have "filter flash_op (trace m) = filter flash_op (trace m0)"
    by (simp add: untouched_def)
  with pre have "filter flash_op pre = []"
    by simp
  with pre show ?thesis by blast
qed


lemma copy_bytes_above:
  assumes "unat src + n \<le> unat dst" and "unat dst + n \<le> 2 ^ 24"
    and "\<And>j. j < n \<Longrightarrow> \<not> in_flash cfg (dst + of_nat j)"
  shows "mem (copy_bytes cfg env dst src n m) a =
           (if unat dst \<le> unat a \<and> unat a < unat dst + n then mem m (src + (a - dst)) else mem m a)"
  using assms
proof (induction n arbitrary: dst src m)
  case 0
  show ?case by auto
next
  case (Suc n)
  let ?m' = "poke cfg env dst (mem m src) m"
  from Suc.prems(3) [of 0] have nf: "\<not> in_flash cfg dst"
    by simp
  then have m': "mem ?m' = (mem m)(dst := mem m src)"
    by (simp add: poke_def)
  show ?case
  proof (cases "n = 0")
    case True
    have "unat dst \<le> unat a \<and> unat a < unat dst + 1 \<longleftrightarrow> a = dst"
      by (auto simp: word_unat_eq_iff)
    with True show ?thesis
      by (auto simp: m')
  next
    case pos: False
    with Suc.prems(2) have "unat dst + 1 < (2 :: nat) ^ 24"
      by linarith
    then have "unat dst + unat (1 :: UINT24) < 2 ^ LENGTH(24)"
      by simp
    then have "unat (dst + 1) = unat dst + unat (1 :: UINT24)"
      by (rule unat_add_lem [THEN iffD1])
    then have d1: "unat (dst + 1) = unat dst + 1"
      by simp
    from pos Suc.prems(1,2) have "unat src + 1 < (2 :: nat) ^ 24"
      by linarith
    then have "unat src + unat (1 :: UINT24) < 2 ^ LENGTH(24)"
      by simp
    then have "unat (src + 1) = unat src + unat (1 :: UINT24)"
      by (rule unat_add_lem [THEN iffD1])
    then have s1: "unat (src + 1) = unat src + 1"
      by simp
    have "mem (copy_bytes cfg env (dst + 1) (src + 1) n ?m') a =
            (if unat (dst + 1) \<le> unat a \<and> unat a < unat (dst + 1) + n
             then mem ?m' (src + 1 + (a - (dst + 1))) else mem ?m' a)"
    proof (rule Suc.IH)
      show "unat (src + 1) + n \<le> unat (dst + 1)"
        using Suc.prems(1) by (simp add: d1 s1)
      show "unat (dst + 1) + n \<le> 2 ^ 24"
        using Suc.prems(2) by (simp add: d1)
      fix j assume "j < n"
      then have "\<not> in_flash cfg (dst + of_nat (Suc j))"
        by (intro Suc.prems(3)) simp
      moreover have "dst + of_nat (Suc j) = dst + 1 + of_nat j"
        by simp
      ultimately show "\<not> in_flash cfg (dst + 1 + of_nat j)"
        by metis
    qed
    then have ih: "mem (copy_bytes cfg env dst src (Suc n) m) a =
            (if unat dst + 1 \<le> unat a \<and> unat a < unat dst + 1 + n
             then mem ?m' (src + (a - dst)) else mem ?m' a)"
      by (simp add: d1)
    show ?thesis
    proof (cases "unat dst + 1 \<le> unat a \<and> unat a < unat dst + 1 + n")
      case True
      then have "dst \<le> a"
        by (simp add: word_le_nat_alt)
      then have "unat (a - dst) = unat a - unat dst"
        by (rule unat_sub)
      with True Suc.prems(1) have lt: "unat src + unat (a - dst) < unat dst"
        by linarith
      with Suc.prems(2) have "unat src + unat (a - dst) < (2 :: nat) ^ 24"
        by linarith
      then have "unat src + unat (a - dst) < 2 ^ LENGTH(24)"
        by simp
      then have "unat (src + (a - dst)) = unat src + unat (a - dst)"
        by (rule unat_add_lem [THEN iffD1])
      with lt have "unat (src + (a - dst)) < unat dst"
        by (simp only:)
      then have "src + (a - dst) \<noteq> dst"
        by (metis less_irrefl)
      with True ih show ?thesis
        by (simp add: m')
    next
      case False
      show ?thesis
      proof (cases "a = dst")
        case True
        with False ih show ?thesis
          by (simp add: m')
      next
        case ne: False
        then have "unat a \<noteq> unat dst"
          by (simp add: word_unat_eq_iff)
        with False have out: "\<not> (unat dst \<le> unat a \<and> unat a < unat dst + Suc n)"
          by auto
        from ih False have "mem (copy_bytes cfg env dst src (Suc n) m) a = mem ?m' a"
          by (simp only: if_False)
        also from ne have "\<dots> = mem m a"
          by (simp add: m')
        also from out have "\<dots> = (if unat dst \<le> unat a \<and> unat a < unat dst + Suc n
                                  then mem m (src + (a - dst)) else mem m a)"
          by (simp only: if_False)
        finally show ?thesis .
      qed
    qed
  qed
qed

text \<open>
  With the flash at address 0 and the second buffer behind it, the capture leaves a copy of
  the whole flash in the buffer, leaves the flash as it is, and returns its checksum.
\<close>

lemma capture_backup_content:
  assumes "layout_ok cfg" and "capture_backup cfg env m = (crcb, m1)"
  shows "peek m1 (BUFFER2 cfg) (unat (FLASHSIZE cfg)) = peek m (FLASHSTART cfg) (unat (FLASHSIZE cfg))"
    and "peek m1 (FLASHSTART cfg) (unat (FLASHSIZE cfg)) = peek m (FLASHSTART cfg) (unat (FLASHSIZE cfg))"
    and "crcb = crc32 env (peek m (FLASHSTART cfg) (unat (FLASHSIZE cfg)))"
proof -
  let ?n = "unat (FLASHSIZE cfg)"
  from assms(1) have fs: "FLASHSTART cfg = 0" and le: "?n \<le> unat (BUFFER2 cfg)"
    and top: "unat (BUFFER2 cfg) + ?n \<le> 2 ^ 24"
    by (simp_all add: layout_ok_def)
  have idx: "unat (of_nat i :: UINT24) = i" if "i < ?n" for i
  proof -
    have "?n < 2 ^ 24" using unsigned_less [of "FLASHSIZE cfg"] by simp
    with that have "i < 2 ^ 24" by simp
    then show ?thesis by (simp add: unat_of_nat take_bit_eq_mod)
  qed
  have off: "unat (BUFFER2 cfg + of_nat i) = unat (BUFFER2 cfg) + i" if "i < ?n" for i
  proof -
    from that top have "unat (BUFFER2 cfg) + i < (2 :: nat) ^ 24"
      by linarith
    then have "unat (BUFFER2 cfg) + unat (of_nat i :: UINT24) < 2 ^ LENGTH(24)"
      by (simp add: idx that)
    then have "unat (BUFFER2 cfg + of_nat i) = unat (BUFFER2 cfg) + unat (of_nat i :: UINT24)"
      by (rule unat_add_lem [THEN iffD1])
    then show ?thesis
      by (simp add: idx that)
  qed
  have outside: "\<not> in_flash cfg (BUFFER2 cfg + of_nat j)" if "j < ?n" for j
    using off [OF that] le by (simp add: in_flash_def fs word_less_nat_alt)
  have cp: "mem m1 a =
      (if unat (BUFFER2 cfg) \<le> unat a \<and> unat a < unat (BUFFER2 cfg) + ?n
       then mem m (0 + (a - BUFFER2 cfg)) else mem m a)" for a
    unfolding capture_backup_fields(2) [OF assms(2)]
    by (rule copy_bytes_above) (use le top outside in simp_all)
  show b: "peek m1 (BUFFER2 cfg) ?n = peek m (FLASHSTART cfg) ?n"
    by (simp add: peek_def fs cp off)
  show f: "peek m1 (FLASHSTART cfg) ?n = peek m (FLASHSTART cfg) ?n"
    using le by (simp add: peek_def fs cp idx)
  from capture_backup_fields(3) [OF assms(2)] f show "crcb = crc32 env (peek m (FLASHSTART cfg) ?n)"
    by (simp add: fs)
qed

text \<open>
  A run of \<open>main\<close> that does not return has got as far as the state machine: up to there
  it has left the device alone, then captured the backup and disabled the interrupts.
\<close>

lemma main_backup:
  assumes "main cfg env argv m0 = Some (oc, mf)" and "oc \<noteq> Returned"
  shows "\<exists>pre m crcexp sz crcb m1.
           trace m = trace m0 @ pre \<and> filter flash_op pre = [] \<and> untouched cfg m0 m \<and>
           capture_backup cfg env m = (crcb, m1) \<and>
           run cfg env firmware
             \<lparr>crcexpected = crcexp, crcbackup = crcb, size_v = sz,
              addressto = FLASHSTART cfg, addressfrom = BUFFER1 cfg\<rparr> (di m1) = Some (oc, mf)"
proof (cases "staging cfg env argv m0")
  case (Inl r)
  with assms have "staging cfg env argv m0 = Inl (oc, mf)"
    by (simp add: main_def)
  with staging_untouched [of cfg env argv m0 oc mf] assms(2) show ?thesis
    by simp
next
  case (Inr t)
  obtain crcexp sz m where t: "t = (crcexp, sz, m)"
    by (cases t)
  from staging_grows [OF Inr [unfolded t]] obtain pre0 where
    p0: "trace m = trace m0 @ pre0" "filter flash_op pre0 = []"
    by blast
  from assms(1) Inr t have g: "gate cfg env crcexp sz m = Some (oc, mf)"
    by (simp add: main_def)
  have match: "crc32 env (peek m (BUFFER1 cfg) (unat sz)) = crcexp"
  proof (rule ccontr)
    assume "crc32 env (peek m (BUFFER1 cfg) (unat sz)) \<noteq> crcexp"
    from gate_mismatch [OF this] g assms(2) show False
      by simp
  qed
  with g obtain r where "confirm 0
      (printf ''Erase and program flash (y/n)? '' []
        (printf ''OK'' []
          (printf ''CRC32 result : 0x%08lx'' [Num (unat crcexp)]
            (emit (Crc32 (BUFFER1 cfg) sz)
              (printf ''Testing CRC32: 0x%08lx'' [Num (unat crcexp)] m))))) = Some r"
    by (auto simp: gate_def crc32_call_def Let_def peek_def split: option.splits)
  moreover have "other_key 0" by (simp add: other_key_def)
  ultimately obtain c rest where d: "dropWhile other_key (keys m) = c # rest"
    by (cases "dropWhile other_key (keys m)") (simp_all add: confirm_scan del: dropWhile_eq_Nil_conv)
  define pre1 where "pre1 =
      [Printf ''Testing CRC32: 0x%08lx'' [Num (unat crcexp)], Crc32 (BUFFER1 cfg) sz,
       Printf ''CRC32 result : 0x%08lx'' [Num (unat crcexp)],
       Printf ''OK'' [], Printf ''Erase and program flash (y/n)? '' []] @
      map Getch (takeWhile other_key (keys m)) @ [Getch c]"
  define m3 where "m3 = m\<lparr>keys := rest, trace := trace m @ pre1\<rparr>"
  have quiet: "filter flash_op pre1 = []"
    by (simp add: pre1_def filter_empty_conv)
  from gate_match [OF match d] g assms(2)
  have p: "programming cfg env crcexp sz m3 = Some (oc, mf)"
    by (simp add: pre1_def m3_def split: if_splits)
  obtain crcb m1 where c: "capture_backup cfg env m3 = (crcb, m1)"
    by (cases "capture_backup cfg env m3")
  with p have r: "run cfg env firmware
             \<lparr>crcexpected = crcexp, crcbackup = crcb, size_v = sz,
              addressto = FLASHSTART cfg, addressfrom = BUFFER1 cfg\<rparr> (di m1) = Some (oc, mf)"
    by (simp add: programming_def)
  have t3: "trace m3 = trace m0 @ (pre0 @ pre1)" "filter flash_op (pre0 @ pre1) = []"
    using p0 quiet by (simp_all add: m3_def)
  from staging_untouched [of cfg env argv m0 _ m crcexp sz] Inr t have "untouched cfg m0 m"
    by simp
  moreover have "untouched cfg m m3"
    using quiet by (simp add: untouched_def m3_def)
  ultimately have "untouched cfg m0 m3"
    by (rule untouched_trans)
  with t3 c r show ?thesis
    by blast
qed

section \<open>The backup precedes the erase\<close>

text \<open>
  C4. A run of \<open>main\<close> that gets past the checks and the prompt, so that it does not return,
  goes through three stretches. Up to a machine \<open>m\<close> it leaves the device alone: no copy, no
  write of a flash register, no unlocking, interrupts not disabled. Then come exactly the
  events of the capture: the copy of \<open>FLASHSIZE\<close> bytes from address 0 to the second buffer,
  the checksum of the \<open>FLASHSIZE\<close> bytes at address 0, and only then \<open>di()\<close>. From the machine
  \<open>mb\<close> reached there the state machine runs, and the first thing it does is the erase: the
  unprotect sequence and the erase of each page. So every erase of a page comes after the
  copy, the checksum and \<open>di()\<close>. With the flash at address 0 and the buffer behind it, the
  buffer of \<open>mb\<close> holds the whole flash of \<open>m\<close>, byte for byte, the flash itself is as it was,
  and \<open>crcbackup\<close> is the checksum of these bytes.
\<close>

theorem backup_precedes_erase:
  assumes "main cfg env argv m0 = Some (oc, mf)" and "oc \<noteq> Returned"
  shows "\<exists>pre m v mb post.
           trace m = trace m0 @ pre \<and> filter flash_op pre = [] \<and> untouched cfg m0 m
         \<and> trace mb = trace m @ backup_events cfg
         \<and> (layout_ok cfg \<longrightarrow>
              peek mb (BUFFER2 cfg) (unat (FLASHSIZE cfg)) =
                peek m (FLASHSTART cfg) (unat (FLASHSIZE cfg))
            \<and> peek mb (FLASHSTART cfg) (unat (FLASHSIZE cfg)) =
                peek m (FLASHSTART cfg) (unat (FLASHSIZE cfg))
            \<and> crcbackup v = crc32 env (peek m (FLASHSTART cfg) (unat (FLASHSIZE cfg))))
         \<and> run cfg env firmware v mb = Some (oc, mf)
         \<and> trace mf = trace mb @ erase_events cfg @ post"
proof -
  from main_backup [OF assms] obtain pre m crcexp sz crcb m1 where
    pre: "trace m = trace m0 @ pre" "filter flash_op pre = []" "untouched cfg m0 m"
    and c: "capture_backup cfg env m = (crcb, m1)"
    and r: "run cfg env firmware
             \<lparr>crcexpected = crcexp, crcbackup = crcb, size_v = sz,
              addressto = FLASHSTART cfg, addressfrom = BUFFER1 cfg\<rparr> (di m1) = Some (oc, mf)"
    by blast
  let ?v = "\<lparr>crcexpected = crcexp, crcbackup = crcb, size_v = sz,
              addressto = FLASHSTART cfg, addressfrom = BUFFER1 cfg\<rparr>"
  from capture_backup_fields(1) [OF c] have tb: "trace (di m1) = trace m @ backup_events cfg"
    by (simp add: backup_events_def)
  have content: "layout_ok cfg \<longrightarrow>
              peek (di m1) (BUFFER2 cfg) (unat (FLASHSIZE cfg)) =
                peek m (FLASHSTART cfg) (unat (FLASHSIZE cfg))
            \<and> peek (di m1) (FLASHSTART cfg) (unat (FLASHSIZE cfg)) =
                peek m (FLASHSTART cfg) (unat (FLASHSIZE cfg))
            \<and> crcbackup ?v = crc32 env (peek m (FLASHSTART cfg) (unat (FLASHSIZE cfg)))"
  proof
    assume l: "layout_ok cfg"
    have "peek (di m1) a n = peek m1 a n" for a n
      by (simp add: peek_def)
    with capture_backup_content [OF l c] show "peek (di m1) (BUFFER2 cfg) (unat (FLASHSIZE cfg)) =
                peek m (FLASHSTART cfg) (unat (FLASHSIZE cfg))
            \<and> peek (di m1) (FLASHSTART cfg) (unat (FLASHSIZE cfg)) =
                peek m (FLASHSTART cfg) (unat (FLASHSIZE cfg))
            \<and> crcbackup ?v = crc32 env (peek m (FLASHSTART cfg) (unat (FLASHSIZE cfg)))"
      by simp
  qed
  from run_trace [OF r] obtain post where "trace mf = trace (di m1) @ erase_events cfg @ post"
    by blast
  with pre tb content r show ?thesis
    by (intro exI [of _ pre] exI [of _ m] exI [of _ ?v] exI [of _ "di m1"] exI [of _ post] conjI)
qed

text \<open>
  The small device, the file \<open>[1, 2, 3]\<close> with its checksum, the operator answering \<open>y\<close>: the
  run ends in the reset; before the first event of the erase the buffer at 24 holds the
  eight bytes of the flash, and \<open>crcbackup\<close> their checksum.
\<close>

theorem backup_precedes_erase_witness:
  "layout_ok demo_cfg \<and>
   (\<exists>mf pre v mb post.
      main demo_cfg (demo_env [1, 2, 3]) [''FLASH'', ''fw.bin'', ''sum''] (demo_machine [0x79]) =
        Some (SystemReset, mf)
    \<and> filter flash_op pre = []
    \<and> trace mb = pre @ backup_events demo_cfg
    \<and> peek mb 24 8 = [0x10, 0x11, 0x12, 0x13, 0x14, 0x15, 0x16, 0x17]
    \<and> peek mb 0 8 = [0x10, 0x11, 0x12, 0x13, 0x14, 0x15, 0x16, 0x17]
    \<and> crcbackup v = 3216240772
    \<and> run demo_cfg (demo_env [1, 2, 3]) firmware v mb = Some (SystemReset, mf)
    \<and> trace mf = trace mb @ erase_events demo_cfg @ post)"
proof -
  let ?env = "demo_env [1, 2, 3]"
  let ?main = "main demo_cfg ?env [''FLASH'', ''fw.bin'', ''sum''] (demo_machine [0x79])"
  have l: "layout_ok demo_cfg"
    by (simp add: layout_ok_def demo_cfg_def)
  have "map_option fst ?main = Some SystemReset"
    by (simp add: run_defs cong: prod.case_cong_weak)
  then obtain mf where run: "?main = Some (SystemReset, mf)"
    by (cases ?main) auto
  have nr: "SystemReset \<noteq> Returned" by simp
  from backup_precedes_erase [OF run nr] obtain pre m v mb post where
    pre: "trace m = trace (demo_machine [0x79]) @ pre" "filter flash_op pre = []"
    and u: "untouched demo_cfg (demo_machine [0x79]) m"
    and tb: "trace mb = trace m @ backup_events demo_cfg"
    and content: "layout_ok demo_cfg \<longrightarrow>
              peek mb (BUFFER2 demo_cfg) (unat (FLASHSIZE demo_cfg)) =
                peek m (FLASHSTART demo_cfg) (unat (FLASHSIZE demo_cfg))
            \<and> peek mb (FLASHSTART demo_cfg) (unat (FLASHSIZE demo_cfg)) =
                peek m (FLASHSTART demo_cfg) (unat (FLASHSIZE demo_cfg))
            \<and> crcbackup v =
                crc32 ?env (peek m (FLASHSTART demo_cfg) (unat (FLASHSIZE demo_cfg)))"
    and r: "run demo_cfg ?env firmware v mb = Some (SystemReset, mf)"
    and tf: "trace mf = trace mb @ erase_events demo_cfg @ post"
    by (elim exE conjE)
  note c = content [THEN mp, OF l]
  note b = c [THEN conjunct1]
  note f = c [THEN conjunct2, THEN conjunct1]
  note crc = c [THEN conjunct2, THEN conjunct2]
  from untouched_demo(2) [OF u] have flash: "peek m 0 8 = [0x10, 0x11, 0x12, 0x13, 0x14, 0x15, 0x16, 0x17]"
    by (simp add: peek_numeral peek_Suc peek_0)
  from pre(1) tb have 1: "trace mb = pre @ backup_events demo_cfg"
    by (simp add: demo_machine_def)
  from b flash have 2: "peek mb 24 8 = [0x10, 0x11, 0x12, 0x13, 0x14, 0x15, 0x16, 0x17]"
    by (simp add: demo_cfg_def)
  from f flash have 3: "peek mb 0 8 = [0x10, 0x11, 0x12, 0x13, 0x14, 0x15, 0x16, 0x17]"
    by (simp add: demo_cfg_def)
  from crc flash have 4: "crcbackup v = 3216240772"
    by (simp add: demo_cfg_def demo_env_def sum32_def)
  from run pre(2) 1 2 3 4 r tf have "\<exists>mf pre v mb post. ?main = Some (SystemReset, mf)
    \<and> filter flash_op pre = []
    \<and> trace mb = pre @ backup_events demo_cfg
    \<and> peek mb 24 8 = [0x10, 0x11, 0x12, 0x13, 0x14, 0x15, 0x16, 0x17]
    \<and> peek mb 0 8 = [0x10, 0x11, 0x12, 0x13, 0x14, 0x15, 0x16, 0x17]
    \<and> crcbackup v = 3216240772
    \<and> run demo_cfg ?env firmware v mb = Some (SystemReset, mf)
    \<and> trace mf = trace mb @ erase_events demo_cfg @ post"
    by (intro exI [of _ mf] exI [of _ pre] exI [of _ v] exI [of _ mb] exI [of _ post] conjI)
  with l show ?thesis ..
qed

section \<open>Failures before the flash is touched\<close>




section \<open>An empty image\<close>

text \<open>An empty file: \<open>staging\<close> reads nothing and passes size 0 on.\<close>

lemma staging_empty:
  assumes "length argv = 3" and "files env (argv ! 1) = Some []"
    and "strtoll env (argv ! 2) = (crcexp, 0)"
  shows "staging cfg env argv m0 =
           Inr (crcexp, 0,
                m0\<lparr>file_rest := [],
                   trace := trace m0 @
                     [Printf ''Agon MOS firmware upgrade utility v1.3'' [], Fopen (argv ! 1),
                      Printf ''Loading file : %s'' [Str (argv ! 1)],
                      Printf ''File size    : %d byte(s)'' [Num 0],
                      Fread (BUFFER1 cfg) 0, Fclose,
                      Printf ''File size    : %d byte(s)'' [Num 0]]\<rparr>)"
  using assms
  by (simp add: staging_def Let_def mos_fopen_def load.simps mos_fread_def mos_fclose_def emit_def)

lemma write_events_empty: "write_events cfg 0 ato afrom = [Printf ''Writing new firmware...'' []]"
  by (simp add: write_events_def page_plan_def)

text \<open>The state machine on an image of length 0 whose expected checksum is that of no bytes.\<close>

lemma run_empty:
  assumes "geometry_ok cfg" and "responsive env"
    and "size_v v = 0" and "crcexpected v = crc32 env []"
  shows "\<exists>mf. run cfg env firmware v m = Some (SystemReset, mf) \<and>
           trace mf = trace m @ erase_events cfg @ [Printf ''Writing new firmware...'' []] @
             verify_events cfg 0 @ [Printf ''- OK'' []] @ reset_events \<and>
           (\<forall>a. in_flash cfg a \<longrightarrow> mem mf a = ERASED)"
proof -
  from step_total [OF assms(2)] obtain r where s: "step cfg env firmware v m = Some r"
    by blast
  have ns: "firmware \<noteq> systemreset" by simp
  have "crc32 env (peek (machine_of r) (FLASHSTART cfg)
          (unat (if firmware = recover then FLASHSIZE cfg else size_v v))) =
        (if firmware = recover then crcbackup v else crcexpected v)"
    by (simp add: assms(3,4) peek_0)
  from step_verdict(1) [OF s ns this] obtain v1 m1 where r: "r = Continue systemreset v1 m1"
    by blast
  from s have p: "pass cfg env firmware (v\<lparr>addressfrom := BUFFER1 cfg\<rparr>) m = Some r"
    by (simp add: step_def)
  from pass_shape [OF p ns] have t1: "trace m1 = trace m @ erase_events cfg @
      [Printf ''Writing new firmware...'' []] @ verify_events cfg 0 @ [Printf ''- OK'' []]"
    by (simp add: r assms(3) write_events_empty)
  have e1: "mem m1 a = ERASED" if "in_flash cfg a" for a
    using pass_erased_outside [OF assms(1) p that] by (simp add: r assms(3))
  from reset_sequence_total [OF assms(2)] obtain mf where rs: "reset_sequence env m1 = Some mf"
    by blast
  from s r rs have run: "run cfg env firmware v m = Some (SystemReset, mf)"
    by (subst run.simps) (simp add: run_systemreset)
  from reset_sequence_Some [OF rs] t1 e1 have
    "trace mf = trace m @ erase_events cfg @ [Printf ''Writing new firmware...'' []] @
             verify_events cfg 0 @ [Printf ''- OK'' []] @ reset_events"
    and "\<forall>a. in_flash cfg a \<longrightarrow> mem mf a = ERASED"
    by simp_all
  with run show ?thesis
    by (intro exI [of _ mf] conjI)
qed

text \<open>
  Claim C10. An empty file with the checksum of no bytes, and an operator whose first answer
  among \<open>'y'\<close> and \<open>'n'\<close> is \<open>'y'\<close>, on a device that answers: nothing rejects the image of
  length 0. The run passes the checksum gate ("OK"), prompts, reads the keys up to the
  \<open>'y'\<close>, captures the backup, erases every page, writes no page at all (the only bulk copy
  of the whole run is the one of the backup), computes the checksum of 0 bytes at
  \<open>FLASHSTART\<close>, finds it matching ("- OK"), and ends in the reset; every byte of the flash
  is then erased. The trace of the run is given in full.
\<close>

theorem empty_image_erases_flash:
  assumes "geometry_ok cfg" and "responsive env"
    and "length argv = 3" and "files env (argv ! 1) = Some []"
    and "strtoll env (argv ! 2) = (crc32 env [], 0)"
    and "dropWhile other_key (keys m0) = 0x79 # rest"
  shows "\<exists>mf. main cfg env argv m0 = Some (SystemReset, mf)
           \<and> trace mf = trace m0 @
               [Printf ''Agon MOS firmware upgrade utility v1.3'' [], Fopen (argv ! 1),
                Printf ''Loading file : %s'' [Str (argv ! 1)],
                Printf ''File size    : %d byte(s)'' [Num 0],
                Fread (BUFFER1 cfg) 0, Fclose,
                Printf ''File size    : %d byte(s)'' [Num 0],
                Printf ''Testing CRC32: 0x%08lx'' [Num (unat (crc32 env []))],
                Crc32 (BUFFER1 cfg) 0,
                Printf ''CRC32 result : 0x%08lx'' [Num (unat (crc32 env []))],
                Printf ''OK'' [], Printf ''Erase and program flash (y/n)? '' []] @
               map Getch (takeWhile other_key (keys m0)) @ [Getch 0x79] @
               backup_events cfg @ erase_events cfg @
               [Printf ''Writing new firmware...'' []] @ verify_events cfg 0 @
               [Printf ''- OK'' []] @ reset_events
           \<and> copies (trace mf) = copies (trace m0) @ [(BUFFER2 cfg, 0, FLASHSIZE cfg)]
           \<and> (\<forall>a. in_flash cfg a \<longrightarrow> mem mf a = ERASED)"
proof -
  let ?crc = "crc32 env []"
  define pre0 where "pre0 =
      [Printf ''Agon MOS firmware upgrade utility v1.3'' [], Fopen (argv ! 1),
       Printf ''Loading file : %s'' [Str (argv ! 1)],
       Printf ''File size    : %d byte(s)'' [Num 0],
       Fread (BUFFER1 cfg) 0, Fclose,
       Printf ''File size    : %d byte(s)'' [Num 0]]"
  define pre1 where "pre1 =
      [Printf ''Testing CRC32: 0x%08lx'' [Num (unat ?crc)], Crc32 (BUFFER1 cfg) 0,
       Printf ''CRC32 result : 0x%08lx'' [Num (unat ?crc)],
       Printf ''OK'' [], Printf ''Erase and program flash (y/n)? '' []] @
      map Getch (takeWhile other_key (keys m0)) @ [Getch 0x79]"
  define m where "m = m0\<lparr>file_rest := [], trace := trace m0 @ pre0\<rparr>"
  define m3 where "m3 = m\<lparr>keys := rest, trace := trace m @ pre1\<rparr>"
  from staging_empty [OF assms(3,4,5), of cfg m0]
  have st: "staging cfg env argv m0 = Inr (?crc, 0, m)"
    by (simp only: m_def pre0_def)
  have crc: "crc32 env (peek m (BUFFER1 cfg) (unat (0 :: UINT24))) = ?crc"
    by (simp add: peek_0)
  have d: "dropWhile other_key (keys m) = 0x79 # rest"
    using assms(6) by (simp add: m_def)
  have km: "keys m = keys m0"
    by (simp add: m_def)
  from gate_match [OF crc d] have g: "gate cfg env ?crc 0 m = programming cfg env ?crc 0 m3"
    by (simp add: m3_def pre1_def km)
  obtain crcb m1 where c: "capture_backup cfg env m3 = (crcb, m1)"
    by (cases "capture_backup cfg env m3")
  let ?v = "\<lparr>crcexpected = ?crc, crcbackup = crcb, size_v = 0,
            addressto = FLASHSTART cfg, addressfrom = BUFFER1 cfg\<rparr>"
  from run_empty [OF assms(1,2), of ?v "di m1"] obtain mf where
    run: "run cfg env firmware ?v (di m1) = Some (SystemReset, mf)"
    and t: "trace mf = trace (di m1) @ erase_events cfg @ [Printf ''Writing new firmware...'' []] @
             verify_events cfg 0 @ [Printf ''- OK'' []] @ reset_events"
    and e: "\<forall>a. in_flash cfg a \<longrightarrow> mem mf a = ERASED"
    by auto
  from st g c run have main: "main cfg env argv m0 = Some (SystemReset, mf)"
    by (simp add: main_def programming_def)
  from capture_backup_fields(1) [OF c] have tb: "trace (di m1) = trace m3 @ backup_events cfg"
    by (simp add: backup_events_def)
  have t3: "trace m3 = trace m0 @ pre0 @ pre1"
    by (simp add: m3_def m_def)
  from t tb t3 have trace: "trace mf = trace m0 @ pre0 @ pre1 @ backup_events cfg @ erase_events cfg @
      [Printf ''Writing new firmware...'' []] @ verify_events cfg 0 @
      [Printf ''- OK'' []] @ reset_events"
    by simp
  have quiet: "copies pre0 = []" "copies (map Getch ks) = []" "copies reset_events = []"
    "copies (verify_events cfg 0) = []" "copies (erase_events cfg) = []"
    "copies (backup_events cfg) = [(BUFFER2 cfg, 0, FLASHSIZE cfg)]" for ks
    by (induction ks)
       (simp_all add: pre0_def reset_events_def verify_events_def erase_events_def backup_events_def)
  from trace have cp: "copies (trace mf) = copies (trace m0) @ [(BUFFER2 cfg, 0, FLASHSIZE cfg)]"
    by (simp add: quiet pre1_def)
  from trace have "trace mf = trace m0 @
               [Printf ''Agon MOS firmware upgrade utility v1.3'' [], Fopen (argv ! 1),
                Printf ''Loading file : %s'' [Str (argv ! 1)],
                Printf ''File size    : %d byte(s)'' [Num 0],
                Fread (BUFFER1 cfg) 0, Fclose,
                Printf ''File size    : %d byte(s)'' [Num 0],
                Printf ''Testing CRC32: 0x%08lx'' [Num (unat (crc32 env []))],
                Crc32 (BUFFER1 cfg) 0,
                Printf ''CRC32 result : 0x%08lx'' [Num (unat (crc32 env []))],
                Printf ''OK'' [], Printf ''Erase and program flash (y/n)? '' []] @
               map Getch (takeWhile other_key (keys m0)) @ [Getch 0x79] @
               backup_events cfg @ erase_events cfg @
               [Printf ''Writing new firmware...'' []] @ verify_events cfg 0 @
               [Printf ''- OK'' []] @ reset_events"
    by (simp add: pre0_def pre1_def)
  with main cp e show ?thesis
    by (intro exI [of _ mf] conjI)
qed

text \<open>
  The small device with an empty \<open>fw.bin\<close> and an operator who types a blank and then \<open>y\<close>:
  the run ends in the reset, the only bulk copy is the backup, and the eight bytes of the
  flash are erased.
\<close>

theorem empty_image_erases_flash_witness:
  "geometry_ok demo_cfg \<and> responsive (demo_env []) \<and>
   (\<exists>mf. main demo_cfg (demo_env []) [''FLASH'', ''fw.bin'', ''sum''] (demo_machine [0x20, 0x79]) =
            Some (SystemReset, mf)
        \<and> copies (trace mf) = [(24, 0, 8)]
        \<and> map (mem mf) [0, 1, 2, 3, 4, 5, 6, 7] = [0xFF, 0xFF, 0xFF, 0xFF, 0xFF, 0xFF, 0xFF, 0xFF])"
proof -
  let ?env = "demo_env []"
  let ?a = "[''FLASH'', ''fw.bin'', ''sum'']"
  let ?m0 = "demo_machine [0x20, 0x79]"
  have g: "geometry_ok demo_cfg"
    by (simp add: geometry_ok_def demo_cfg_def)
  have r: "responsive ?env"
    by (simp add: responsive_def demo_env_def)
  have l: "length ?a = 3" by simp
  have f: "files ?env (?a ! 1) = Some []"
    by (simp add: demo_env_def)
  have c: "strtoll ?env (?a ! 2) = (crc32 ?env [], 0)"
    by (simp add: demo_env_def)
  have k: "dropWhile other_key (keys ?m0) = 0x79 # []"
    by (simp add: demo_machine_def other_key_def)
  from empty_image_erases_flash [OF g r l f c k] obtain mf where
    run: "main demo_cfg ?env ?a ?m0 = Some (SystemReset, mf)"
    and cp: "copies (trace mf) = copies (trace ?m0) @ [(BUFFER2 demo_cfg, 0, FLASHSIZE demo_cfg)]"
    and e: "\<forall>a. in_flash demo_cfg a \<longrightarrow> mem mf a = ERASED"
    by (elim exE conjE)
  from cp have 1: "copies (trace mf) = [(24, 0, 8)]"
    by (simp add: demo_machine_def demo_cfg_def)
  from e have "\<forall>a. a < 8 \<longrightarrow> mem mf a = 0xFF"
    by (simp add: in_flash_def demo_cfg_def ERASED_def)
  then have 2: "map (mem mf) [0, 1, 2, 3, 4, 5, 6, 7] = [0xFF, 0xFF, 0xFF, 0xFF, 0xFF, 0xFF, 0xFF, 0xFF]"
    by simp
  from run 1 2 have "\<exists>mf. main demo_cfg ?env ?a ?m0 = Some (SystemReset, mf)
        \<and> copies (trace mf) = [(24, 0, 8)]
        \<and> map (mem mf) [0, 1, 2, 3, 4, 5, 6, 7] = [0xFF, 0xFF, 0xFF, 0xFF, 0xFF, 0xFF, 0xFF, 0xFF]"
    by (intro exI [of _ mf] conjI)
  with g r show ?thesis
    by (intro conjI)
qed

end
